theory Spec2Isabelle
  imports Main "HOL-Library.Sublist"
begin

section \<open>Data model\<close>

text \<open>
  The graphs come from the external library graphlib; \<^verbatim>\<open>MatrixView.ts\<close> only ever asks a
  graph for \<^verbatim>\<open>g.successors(v)\<close> and \<^verbatim>\<open>g.predecessors(v)\<close>. Both answer \<^verbatim>\<open>undefined\<close>
  for a node the graph does not hold and an array of node names otherwise, so a graph is
  taken here as the pair of these two queries, with \<open>None\<close> for \<^verbatim>\<open>undefined\<close>.
\<close>

record Graph =
  successors :: "string \<Rightarrow> string list option"
  predecessors :: "string \<Rightarrow> string list option"

text \<open>The only two fields of Obsidian's \<^verbatim>\<open>TFile\<close> the view reads.\<close>

record TFile =
  basename :: string
  path :: string

text \<open>\<^verbatim>\<open>internalLinkObj\<close>: the target of a rendered link and its CSS classes.\<close>

record internalLinkObj =
  to :: string
  cls :: string

text \<open>\<^verbatim>\<open>AdjListItem\<close>, with the optional \<^verbatim>\<open>parentId\<close> as an option.\<close>

record AdjListItem =
  name :: string
  parentId :: "string option"

text \<open>The settings \<^verbatim>\<open>createIndex\<close> and \<^verbatim>\<open>draw\<close> read.\<close>

record BreadcrumbsSettings =
  wikilinkIndex :: bool
  aliasesInIndex :: bool
  showNameOrType :: bool
  parentFieldName :: string
  siblingFieldName :: string
  childFieldName :: string

text \<open>\<^verbatim>\<open>SquareProps\<close>: the real and the implied links of one relation axis.\<close>

record SquareProps =
  realItems :: "internalLinkObj list"
  impliedItems :: "internalLinkObj list"
  fieldName :: string

text \<open>An entry of the work queue of \<^verbatim>\<open>dfsAllPaths\<close>: \<^verbatim>\<open>{ node: string; path: string[] }\<close>.\<close>

record PartialPath =
  node :: string
  path :: "string list"

text \<open>
  A builder for concrete graphs, as graphlib's \<^verbatim>\<open>setEdge\<close> fills one: every endpoint of
  an edge is a node, and the successors (predecessors) of a node are the distinct targets
  (sources) of its edges, in insertion order.
\<close>

definition graph_of :: "(string \<times> string) list \<Rightarrow> Graph" where
  "graph_of es =
     \<lparr>successors = (\<lambda>v. if v \<in> set (map fst es) \<union> set (map snd es)
                          then Some (remdups (map snd (filter (\<lambda>e. fst e = v) es)))
                          else None),
      predecessors = (\<lambda>v. if v \<in> set (map fst es) \<union> set (map snd es)
                          then Some (remdups (map fst (filter (\<lambda>e. snd e = v) es)))
                          else None)\<rparr>"

section \<open>The two bounded traversals\<close>

text \<open>\<^verbatim>\<open>(g.successors(v) ?? []) as string[]\<close>\<close>

definition succs :: "Graph \<Rightarrow> string \<Rightarrow> string list" where
  "succs g v = (case successors g v of None \<Rightarrow> [] | Some ns \<Rightarrow> ns)"

text \<open>
  The \<^verbatim>\<open>while\<close> loop of \<^verbatim>\<open>dfsAllPaths\<close>, on its three variables \<^verbatim>\<open>queue\<close>,
  \<^verbatim>\<open>pathsArr\<close> and \<^verbatim>\<open>i\<close>; the result is their value when the loop is left.
  \<^verbatim>\<open>queue.shift()\<close> takes the head, \<^verbatim>\<open>queue.unshift(...items)\<close> puts the items in front
  in their order.
\<close>

function dfsAllPaths_loop ::
  "Graph \<Rightarrow> PartialPath list \<Rightarrow> string list list \<Rightarrow> nat
     \<Rightarrow> PartialPath list \<times> string list list \<times> nat" where
  "dfsAllPaths_loop g queue pathsArr i =
     (if length queue > 0 \<and> i < 1000 then
        (let currPath = hd queue;
             newNodes = succs g (node currPath);
             extPath = node currPath # path currPath;
             queue' = map (\<lambda>n. \<lparr>node = n, path = extPath\<rparr>) newNodes @ tl queue;
             pathsArr' = (if length newNodes = 0 then pathsArr @ [extPath] else pathsArr)
         in dfsAllPaths_loop g queue' pathsArr' (i + 1))
      else (queue, pathsArr, i))"
  by pat_completeness auto
termination
  by (relation "measure (\<lambda>(g, queue, pathsArr, i). 1000 - i)") auto

declare dfsAllPaths_loop.simps [simp del]

definition dfsAllPaths_run ::
  "Graph \<Rightarrow> string \<Rightarrow> PartialPath list \<times> string list list \<times> nat" where
  "dfsAllPaths_run g startNode = dfsAllPaths_loop g [\<lparr>node = startNode, path = []\<rparr>] [] 0"

definition dfsAllPaths :: "Graph \<Rightarrow> string \<Rightarrow> string list list" where
  "dfsAllPaths g startNode = fst (snd (dfsAllPaths_run g startNode))"

text \<open>
  The loop of \<^verbatim>\<open>dfsAdjList\<close>. The \<^verbatim>\<open>forEach\<close> unshifts the successors one at a time, so
  they reach the front of the queue in reverse order, and pushes one entry per successor.
\<close>

function dfsAdjList_loop ::
  "Graph \<Rightarrow> string list \<Rightarrow> AdjListItem list \<Rightarrow> nat
     \<Rightarrow> string list \<times> AdjListItem list \<times> nat" where
  "dfsAdjList_loop g queue adjList i =
     (if length queue \<noteq> 0 \<and> i < 1000 then
        (let currNode = hd queue;
             newNodes = succs g currNode;
             queue' = rev newNodes @ tl queue;
             adjList' = adjList @ map (\<lambda>succ. \<lparr>name = currNode, parentId = Some succ\<rparr>) newNodes
         in dfsAdjList_loop g queue' adjList' (i + 1))
      else (queue, adjList, i))"
  by pat_completeness auto
termination
  by (relation "measure (\<lambda>(g, queue, adjList, i). 1000 - i)") auto

declare dfsAdjList_loop.simps [simp del]

definition dfsAdjList_run :: "Graph \<Rightarrow> string \<Rightarrow> string list \<times> AdjListItem list \<times> nat" where
  "dfsAdjList_run g startNode = dfsAdjList_loop g [startNode] [] 0"

definition dfsAdjList :: "Graph \<Rightarrow> string \<Rightarrow> AdjListItem list" where
  "dfsAdjList g startNode = fst (snd (dfsAdjList_run g startNode))"

section \<open>The outline renderer\<close>

text \<open>
  \<^verbatim>\<open>createIndex\<close> keeps its visited depths in a plain JavaScript object,
  \<^verbatim>\<open>const visited: { [node: string]: number[] } = {}\<close>, keyed by node names, and asks it
  \<^verbatim>\<open>visited.hasOwnProperty(currNode)\<close>. Such an object is a dictionary for every key but
  two, and the model keeps the difference:
  \<^item> the assignment \<^verbatim>\<open>visited["__proto__"] = []\<close> runs the inherited setter, which makes the
    array the prototype of \<^verbatim>\<open>visited\<close> and creates no own property; reading
    \<^verbatim>\<open>visited["__proto__"]\<close> gives that prototype back;
  \<^item> the assignment \<^verbatim>\<open>visited["hasOwnProperty"] = []\<close> creates an own property that hides
    the inherited method, so that the next call \<^verbatim>\<open>visited.hasOwnProperty(...)\<close> calls an
    array and throws a TypeError.
  So the object is its own properties (a map that never holds the key \<^verbatim>\<open>__proto__\<close>) and
  the array installed as its prototype, if any.
\<close>

datatype error = TypeError

record VisitedObj =
  own :: "string \<rightharpoonup> nat list"
  proto :: "nat list option"

definition hasOwnProperty :: "VisitedObj \<Rightarrow> string \<Rightarrow> error + bool" where
  "hasOwnProperty visited k =
     (if own visited ''hasOwnProperty'' \<noteq> None then Inl TypeError
      else Inr (own visited k \<noteq> None))"

text \<open>\<^verbatim>\<open>visited[currNode] = []\<close>\<close>

definition assign_empty :: "VisitedObj \<Rightarrow> string \<Rightarrow> VisitedObj" where
  "assign_empty visited k =
     (if k = ''__proto__'' then visited\<lparr>proto := Some []\<rparr>
      else visited\<lparr>own := (own visited)(k \<mapsto> [])\<rparr>)"

text \<open>
  \<^verbatim>\<open>visited[currNode].push(depth)\<close>: a TypeError where the value read is not an array
  (\<^verbatim>\<open>undefined\<close>, or an inherited member of the prototype chain).
\<close>

definition push_depth :: "VisitedObj \<Rightarrow> string \<Rightarrow> nat \<Rightarrow> error + VisitedObj" where
  "push_depth visited k depth =
     (if k = ''__proto__'' then
        (case proto visited of
           None \<Rightarrow> Inl TypeError
         | Some ds \<Rightarrow> Inr (visited\<lparr>proto := Some (ds @ [depth])\<rparr>))
      else
        (case own visited k of
           None \<Rightarrow> Inl TypeError
         | Some ds \<Rightarrow> Inr (visited\<lparr>own := (own visited)(k \<mapsto> ds @ [depth])\<rparr>)))"

text \<open>\<^verbatim>\<open>Array.prototype.includes\<close>, \<^verbatim>\<open>indexOf\<close> and \<^verbatim>\<open>findIndex\<close>: linear scans.\<close>

fun array_includes :: "'a list \<Rightarrow> 'a \<Rightarrow> bool" where
  "array_includes [] x = False"
| "array_includes (y # ys) x = (y = x \<or> array_includes ys x)"

fun findIndex_from :: "int \<Rightarrow> ('a \<Rightarrow> bool) \<Rightarrow> 'a list \<Rightarrow> int" where
  "findIndex_from k P [] = - 1"
| "findIndex_from k P (y # ys) = (if P y then k else findIndex_from (k + 1) P ys)"

definition findIndex :: "('a \<Rightarrow> bool) \<Rightarrow> 'a list \<Rightarrow> int" where
  "findIndex P xs = findIndex_from 0 P xs"

definition indexOf :: "'a list \<Rightarrow> 'a \<Rightarrow> int" where
  "indexOf xs x = findIndex_from 0 (\<lambda>y. y = x) xs"

definition newline :: string where
  "newline = [CHR 0x0A]"

definition indent :: string where
  "indent = ''  ''"

text \<open>\<^verbatim>\<open>allAliases.join(", ")\<close>\<close>

fun join :: "string \<Rightarrow> string list \<Rightarrow> string" where
  "join sep [] = []"
| "join sep [x] = x"
| "join sep (x # y # ys) = x @ sep @ join sep (y # ys)"

text \<open>
  The text one outline line adds to \<^verbatim>\<open>index\<close> (the \<^verbatim>\<open>else\<close> branch, up to the newline).
  The aliases of a note come from Obsidian's metadata cache, an external collaborator:
  \<open>aliasesOf\<close> stands for the flattened list \<^verbatim>\<open>allAliases\<close> it yields for a node.
\<close>

definition outline_line ::
  "BreadcrumbsSettings \<Rightarrow> (string \<Rightarrow> string list) \<Rightarrow> string \<Rightarrow> nat \<Rightarrow> string" where
  "outline_line settings aliasesOf currNode depth =
     concat (replicate depth indent) @ ''- ''
     @ (if wikilinkIndex settings then ''[['' else [])
     @ currNode
     @ (if wikilinkIndex settings then '']]'' else [])
     @ (if aliasesInIndex settings then
          (let allAliases = aliasesOf currNode
           in if length allAliases \<noteq> 0 then '' ('' @ join '', '' allAliases @ '')'' else [])
        else [])
     @ newline"

text \<open>One turn of the inner \<^verbatim>\<open>for\<close> loop, on the variables \<^verbatim>\<open>index\<close> and \<^verbatim>\<open>visited\<close>.\<close>

definition visit_node ::
  "BreadcrumbsSettings \<Rightarrow> (string \<Rightarrow> string list) \<Rightarrow> string \<Rightarrow> nat
     \<Rightarrow> string \<times> VisitedObj \<Rightarrow> error + string \<times> VisitedObj" where
  "visit_node settings aliasesOf currNode depth st =
     (case st of (index, visited) \<Rightarrow>
        (case hasOwnProperty visited currNode of
           Inl e \<Rightarrow> Inl e
         | Inr has \<Rightarrow>
             if has \<and> (case own visited currNode of None \<Rightarrow> False | Some ds \<Rightarrow> array_includes ds depth)
             then Inr (index, visited)
             else
               (let index' = index @ outline_line settings aliasesOf currNode depth
                in case hasOwnProperty visited currNode of
                     Inl e \<Rightarrow> Inl e
                   | Inr has' \<Rightarrow>
                       (let visited' = (if \<not> has' then assign_empty visited currNode else visited)
                        in case push_depth visited' currNode depth of
                             Inl e \<Rightarrow> Inl e
                           | Inr visited'' \<Rightarrow> Inr (index', visited'')))))"

text \<open>\<^verbatim>\<open>for (let depth = 0; depth < path.length; depth++)\<close>, from the given depth on.\<close>

fun visit_path ::
  "BreadcrumbsSettings \<Rightarrow> (string \<Rightarrow> string list) \<Rightarrow> string list \<Rightarrow> nat
     \<Rightarrow> string \<times> VisitedObj \<Rightarrow> error + string \<times> VisitedObj" where
  "visit_path settings aliasesOf [] depth st = Inr st"
| "visit_path settings aliasesOf (currNode # rest) depth st =
     (case visit_node settings aliasesOf currNode depth st of
        Inl e \<Rightarrow> Inl e
      | Inr st' \<Rightarrow> visit_path settings aliasesOf rest (depth + 1) st')"

text \<open>\<^verbatim>\<open>reversed.forEach((path) => { ... })\<close>\<close>

fun visit_paths ::
  "BreadcrumbsSettings \<Rightarrow> (string \<Rightarrow> string list) \<Rightarrow> string list list
     \<Rightarrow> string \<times> VisitedObj \<Rightarrow> error + string \<times> VisitedObj" where
  "visit_paths settings aliasesOf [] st = Inr st"
| "visit_paths settings aliasesOf (p # ps) st =
     (case visit_path settings aliasesOf p 0 st of
        Inl e \<Rightarrow> Inl e
      | Inr st' \<Rightarrow> visit_paths settings aliasesOf ps st')"

text \<open>
  \<^verbatim>\<open>createIndex\<close>: every path of a deep copy is reversed and loses its first element
  (\<^verbatim>\<open>shift\<close> on an empty array does nothing), then the paths are walked in order.
\<close>

definition createIndex ::
  "(string \<Rightarrow> string list) \<Rightarrow> string \<Rightarrow> string list list \<Rightarrow> BreadcrumbsSettings
     \<Rightarrow> error + string" where
  "createIndex aliasesOf index allPaths settings =
     (let reversed = map (\<lambda>p. tl (rev p)) allPaths
      in case visit_paths settings aliasesOf reversed (index, \<lparr>own = Map.empty, proto = None\<rparr>) of
           Inl e \<Rightarrow> Inl e
         | Inr (index', visited) \<Rightarrow> Inr index')"

section \<open>The neighbourhood squares of the view\<close>

text \<open>
  \<^verbatim>\<open>unresolvedQ\<close> reads \<^verbatim>\<open>this.app.metadataCache.unresolvedLinks\<close>, a table of Obsidian's
  taken here as a parameter: per source path, the count of unresolved links per target.
\<close>

definition unresolvedQ :: "(string \<rightharpoonup> (string \<rightharpoonup> nat)) \<Rightarrow> string \<Rightarrow> string \<Rightarrow> bool" where
  "unresolvedQ unresolvedLinks to' from =
     (case unresolvedLinks from of
        None \<Rightarrow> False
      | Some counts \<Rightarrow> (case counts to' of None \<Rightarrow> False | Some n \<Rightarrow> n > 0))"

definition squareItems ::
  "(string \<rightharpoonup> (string \<rightharpoonup> nat)) \<Rightarrow> Graph \<Rightarrow> TFile \<Rightarrow> bool \<Rightarrow> internalLinkObj list" where
  "squareItems unresolvedLinks g currFile realQ =
     (let items = (if realQ
                   then (case successors g (basename currFile) of None \<Rightarrow> [] | Some ns \<Rightarrow> ns)
                   else (case predecessors g (basename currFile) of None \<Rightarrow> [] | Some ns \<Rightarrow> ns))
      in if length items \<noteq> 0 then
           map (\<lambda>item.
                 \<lparr>to = item,
                  cls = ''internal-link breadcrumbs-link''
                        @ (if unresolvedQ unresolvedLinks item (TFile.path currFile)
                           then '' is-unresolved'' else [])
                        @ (if realQ then [] else '' breadcrumbs-implied'')\<rparr>) items
         else [])"

definition removeDuplicateImplied ::
  "internalLinkObj list \<Rightarrow> internalLinkObj list \<Rightarrow> internalLinkObj list" where
  "removeDuplicateImplied reals implieds =
     (let realTos = map (\<lambda>real. to real) reals
      in filter (\<lambda>implied. \<not> array_includes realTos (to implied)) implieds)"

text \<open>
  \<^verbatim>\<open>arr.splice(start, 1)\<close>: a negative start counts from the end (\<^verbatim>\<open>indexOf\<close> gives
  \<open>- 1\<close> for an absent element, and the splice then removes the last element).
\<close>

definition splice1 :: "'a list \<Rightarrow> int \<Rightarrow> 'a list" where
  "splice1 xs start =
     (let len = int (length xs);
          k = nat (if start < 0 then max (len + start) 0 else min start len)
      in take k xs @ drop (k + 1) xs)"

text \<open>The implied siblings \<^verbatim>\<open>draw\<close> collects: the other notes with a parent in common.\<close>

definition impliedSiblingsOf ::
  "(string \<rightharpoonup> (string \<rightharpoonup> nat)) \<Rightarrow> Graph \<Rightarrow> TFile \<Rightarrow> internalLinkObj list" where
  "impliedSiblingsOf unresolvedLinks gParents currFile =
     (let currParents = (case successors gParents (basename currFile) of
                           None \<Rightarrow> [] | Some ns \<Rightarrow> ns)
      in if length currParents \<noteq> 0 then
           concat (map (\<lambda>parent.
             (let impliedSiblings = (case predecessors gParents parent of
                                       None \<Rightarrow> [] | Some ns \<Rightarrow> ns);
                  indexCurrNote = indexOf impliedSiblings (basename currFile);
                  impliedSiblings' = splice1 impliedSiblings indexCurrNote
              in map (\<lambda>impliedSibling.
                   \<lparr>to = impliedSibling,
                    cls = ''internal-link breadcrumbs-link breadcrumbs-implied''
                          @ (if unresolvedQ unresolvedLinks impliedSibling (TFile.path currFile)
                             then '' is-unresolved'' else [])\<rparr>) impliedSiblings')) currParents)
         else [])"

text \<open>
  The part of \<^verbatim>\<open>draw\<close> that assembles the three squares handed to the view
  (\<^verbatim>\<open>parentsSquare\<close>, \<^verbatim>\<open>siblingSquare\<close>, \<^verbatim>\<open>childrenSquare\<close>).
\<close>

definition draw_squares ::
  "(string \<rightharpoonup> (string \<rightharpoonup> nat)) \<Rightarrow> BreadcrumbsSettings \<Rightarrow> Graph \<Rightarrow> Graph \<Rightarrow> Graph \<Rightarrow> TFile
     \<Rightarrow> SquareProps \<times> SquareProps \<times> SquareProps" where
  "draw_squares unresolvedLinks settings gParents gSiblings gChildren currFile =
     (let parentFieldName' = (if showNameOrType settings then parentFieldName settings else ''Parent'');
          siblingFieldName' = (if showNameOrType settings then siblingFieldName settings else ''Sibling'');
          childFieldName' = (if showNameOrType settings then childFieldName settings else ''Child'');
          realParents = squareItems unresolvedLinks gParents currFile True;
          realSiblings = squareItems unresolvedLinks gSiblings currFile True;
          realChildren = squareItems unresolvedLinks gChildren currFile True;
          impliedParents = squareItems unresolvedLinks gChildren currFile False;
          impliedChildren = squareItems unresolvedLinks gParents currFile False;
          impliedSiblingsArr = impliedSiblingsOf unresolvedLinks gParents currFile
                               @ squareItems unresolvedLinks gSiblings currFile False;
          impliedParents' = removeDuplicateImplied realParents impliedParents;
          impliedSiblingsArr' = removeDuplicateImplied realSiblings impliedSiblingsArr;
          impliedChildren' = removeDuplicateImplied realChildren impliedChildren
      in (\<lparr>realItems = realParents, impliedItems = impliedParents', fieldName = parentFieldName'\<rparr>,
          \<lparr>realItems = realSiblings, impliedItems = impliedSiblingsArr', fieldName = siblingFieldName'\<rparr>,
          \<lparr>realItems = realChildren, impliedItems = impliedChildren', fieldName = childFieldName'\<rparr>))"

text \<open>
  The filter \<^verbatim>\<open>noDoubles\<close> of \<^verbatim>\<open>draw\<close>: an entry stays when its index is the index of the
  first entry with its name and its parent.
\<close>

definition noDoubles :: "AdjListItem list \<Rightarrow> AdjListItem list" where
  "noDoubles adjList =
     map snd (filter (\<lambda>(index, thing).
                        int index = findIndex (\<lambda>t. name t = name thing \<and> parentId t = parentId thing) adjList)
                (zip [0 ..< length adjList] adjList))"

section \<open>Notions the properties are stated with\<close>

text \<open>The path a queue entry stands for: its node in front of the nodes that led to it.\<close>

definition ext :: "PartialPath \<Rightarrow> string list" where
  "ext q = node q # path q"

text \<open>A walk along the edges of the graph, listed from its first node on.\<close>

fun walk :: "Graph \<Rightarrow> string list \<Rightarrow> bool" where
  "walk g [] = False"
| "walk g [x] = True"
| "walk g (x # y # r) = (y \<in> set (succs g x) \<and> walk g (y # r))"

text \<open>The same walk listed from its last node back to its first, as the traversal builds it.\<close>

fun is_chain :: "Graph \<Rightarrow> string list \<Rightarrow> bool" where
  "is_chain g [] = False"
| "is_chain g [x] = True"
| "is_chain g (x # y # r) = (x \<in> set (succs g y) \<and> is_chain g (y # r))"

text \<open>A walk from \<open>s\<close> to a node without successors, listed from that sink back to \<open>s\<close>.\<close>

definition sink_walk :: "Graph \<Rightarrow> string \<Rightarrow> string list \<Rightarrow> bool" where
  "sink_walk g s p = (is_chain g p \<and> last p = s \<and> succs g (hd p) = [])"

text \<open>The sinks that can be reached from \<open>s\<close> along edges.\<close>

definition edge_rel :: "Graph \<Rightarrow> (string \<times> string) set" where
  "edge_rel g = {(v, w). w \<in> set (succs g v)}"

definition reachable_sinks :: "Graph \<Rightarrow> string \<Rightarrow> string set" where
  "reachable_sinks g s = {t. (s, t) \<in> (edge_rel g)\<^sup>* \<and> succs g t = []}"

text \<open>Tree-shaped from \<open>s\<close>: no node is reached from \<open>s\<close> by two different walks.\<close>

definition tree_shaped :: "Graph \<Rightarrow> string \<Rightarrow> bool" where
  "tree_shaped g s =
     (\<forall>p q. is_chain g p \<and> last p = s \<and> is_chain g q \<and> last q = s \<and> hd p = hd q \<longrightarrow> p = q)"

text \<open>graphlib lists the successors of a node without repetition (they are the keys of an object).\<close>

definition wf_graph :: "Graph \<Rightarrow> bool" where
  "wf_graph g = (\<forall>v. distinct (succs g v))"

text \<open>The counter of \<^verbatim>\<open>dfsAllPaths\<close> reached the bound.\<close>

definition bound_reached :: "Graph \<Rightarrow> string \<Rightarrow> bool" where
  "bound_reached g startNode = (snd (snd (dfsAllPaths_run g startNode)) = 1000)"

text \<open>
  Deduplication that keeps the first occurrence of every element, in order: the reading of
  "collapsed to one, preserving first-seen order" the filters are compared with.
\<close>

fun first_seen_from :: "'a list \<Rightarrow> 'a list \<Rightarrow> 'a list" where
  "first_seen_from seen [] = []"
| "first_seen_from seen (x # xs) =
     (if x \<in> set seen then first_seen_from seen xs else x # first_seen_from (x # seen) xs)"

definition first_seen :: "'a list \<Rightarrow> 'a list" where
  "first_seen xs = first_seen_from [] xs"

text \<open>The (node, depth) positions \<^verbatim>\<open>createIndex\<close> walks through, in order.\<close>

definition occurrences :: "string list list \<Rightarrow> (string \<times> nat) list" where
  "occurrences allPaths = concat (map (\<lambda>p. zip (tl (rev p)) [0 ..< length p - 1]) allPaths)"

text \<open>The queue and the list of paths after one turn of the loop of \<^verbatim>\<open>dfsAllPaths\<close> that pops \<open>c\<close>.\<close>

definition step_queue :: "Graph \<Rightarrow> PartialPath \<Rightarrow> PartialPath list \<Rightarrow> PartialPath list" where
  "step_queue g c rest = map (\<lambda>n. \<lparr>node = n, path = node c # path c\<rparr>) (succs g (node c)) @ rest"

definition step_paths :: "Graph \<Rightarrow> PartialPath \<Rightarrow> string list list \<Rightarrow> string list list" where
  "step_paths g c ps = (if succs g (node c) = [] then ps @ [node c # path c] else ps)"

text \<open>Invariants of that loop: what is queued or recorded is a walk from the start; every walk to a sink is recorded or still has a queued prefix; nothing is recorded or queued twice.\<close>

definition sound_inv :: "Graph \<Rightarrow> string \<Rightarrow> PartialPath list \<Rightarrow> string list list \<Rightarrow> bool" where
  "sound_inv g s queue ps =
     ((\<forall>q \<in> set queue. is_chain g (ext q) \<and> last (ext q) = s) \<and> (\<forall>p \<in> set ps. sink_walk g s p))"

definition complete_inv :: "Graph \<Rightarrow> string \<Rightarrow> PartialPath list \<Rightarrow> string list list \<Rightarrow> bool" where
  "complete_inv g s queue ps =
     (\<forall>p. sink_walk g s p \<longrightarrow> p \<in> set ps \<or> (\<exists>q \<in> set queue. suffix (ext q) p))"

definition unique_inv :: "PartialPath list \<Rightarrow> string list list \<Rightarrow> bool" where
  "unique_inv queue ps =
     (distinct ps \<and> distinct (map ext queue)
      \<and> (\<forall>x \<in> set (map ext queue). \<forall>y \<in> set (map ext queue). suffix x y \<longrightarrow> x = y)
      \<and> (\<forall>p \<in> set ps. \<forall>x \<in> set (map ext queue). \<not> suffix x p))"

text \<open>The visited object holds exactly the (node, depth) positions of \<open>S\<close>, and its \<^verbatim>\<open>hasOwnProperty\<close> is still the inherited method.\<close>

definition tracks :: "VisitedObj \<Rightarrow> (string \<times> nat) set \<Rightarrow> bool" where
  "tracks visited S =
     (own visited ''hasOwnProperty'' = None
      \<and> (\<forall>n d. ((n, d) \<in> S) = (\<exists>ds. own visited n = Some ds \<and> d \<in> set ds)))"

text \<open>The node names for which the visited object is a dictionary.\<close>

definition ordinary :: "string \<Rightarrow> bool" where
  "ordinary n = (n \<noteq> ''__proto__'' \<and> n \<noteq> ''hasOwnProperty'')"

text \<open>The outline lines of a list of (node, depth) positions.\<close>

definition render :: "BreadcrumbsSettings \<Rightarrow> (string \<Rightarrow> string list) \<Rightarrow> (string \<times> nat) list \<Rightarrow> string" where
  "render settings aliasesOf occs = concat (map (\<lambda>(n, d). outline_line settings aliasesOf n d) occs)"

text \<open>The walks that start at \<open>s\<close>, each listed from its last node back to \<open>s\<close>: the loop of \<^verbatim>\<open>dfsAllPaths\<close> pops one queue entry for each.\<close>

definition walks_from :: "Graph \<Rightarrow> string \<Rightarrow> string list set" where
  "walks_from g s = {p. is_chain g p \<and> last p = s}"

text \<open>A further invariant of that loop: the entries popped so far are walks from the start, as many as the counter says, and none of them extends a queued one.\<close>

definition popped_inv ::
  "Graph \<Rightarrow> string \<Rightarrow> string list set \<Rightarrow> PartialPath list \<Rightarrow> bool" where
  "popped_inv g s D queue =
     (finite D \<and> D \<subseteq> walks_from g s \<and> set (map ext queue) \<subseteq> walks_from g s
      \<and> (\<forall>d \<in> D. \<forall>x \<in> set (map ext queue). \<not> suffix x d))"

definition count_inv :: "Graph \<Rightarrow> string \<Rightarrow> PartialPath list \<Rightarrow> nat \<Rightarrow> bool" where
  "count_inv g s queue i = (unique_inv queue [] \<and> (\<exists>D. card D = i \<and> popped_inv g s D queue))"

section \<open>Concrete graphs\<close>

text \<open>Root has the child Mid, Mid has the child Leaf.\<close>

definition children_graph :: Graph where
  "children_graph = graph_of [(''Root'', ''Mid''), (''Mid'', ''Leaf'')]"

text \<open>The cycle A -> B -> A.\<close>

definition cycle_graph :: Graph where
  "cycle_graph = graph_of [(''A'', ''B''), (''B'', ''A'')]"

text \<open>A diamond: two walks from A to the one sink D.\<close>

definition diamond_graph :: Graph where
  "diamond_graph = graph_of [(''A'', ''B''), (''A'', ''C''), (''B'', ''D''), (''C'', ''D'')]"

text \<open>The diamond with an edge below it, from D to E.\<close>

definition diamond_tail_graph :: Graph where
  "diamond_tail_graph =
     graph_of [(''A'', ''B''), (''A'', ''C''), (''B'', ''D''), (''C'', ''D''), (''D'', ''E'')]"

text \<open>A leaf L and the cycle A -> B -> A below S; and the leaf L alone below S.\<close>

definition leaf_and_cycle_graph :: Graph where
  "leaf_and_cycle_graph = graph_of [(''S'', ''L''), (''S'', ''A''), (''A'', ''B''), (''B'', ''A'')]"

definition leaf_graph :: Graph where
  "leaf_graph = graph_of [(''S'', ''L'')]"

text \<open>A has the child B, B has the children C and D.\<close>

definition outline_graph :: Graph where
  "outline_graph = graph_of [(''A'', ''B''), (''B'', ''C''), (''B'', ''D'')]"

text \<open>A note named hasOwnProperty below A, with the notes C and D below it.\<close>

definition method_name_graph :: Graph where
  "method_name_graph =
     graph_of [(''A'', ''hasOwnProperty''), (''hasOwnProperty'', ''C''), (''hasOwnProperty'', ''D'')]"

text \<open>A parents graph and a children graph around the note Child.\<close>

definition family_parents :: Graph where
  "family_parents = graph_of [(''Child'', ''ParentA''), (''Child'', ''ParentB''), (''Sib'', ''ParentA'')]"

definition family_children :: Graph where
  "family_children = graph_of [(''ParentA'', ''Child''), (''ParentC'', ''Child'')]"

text \<open>A star: S with 1000 leaves below it, named L, Lx, Lxx and so on.\<close>

definition leaf :: "nat \<Rightarrow> string" where
  "leaf k = CHR ''L'' # replicate k CHR ''x''"

definition leaves :: "string list" where
  "leaves = map leaf [0 ..< 1000]"

definition star_graph :: Graph where
  "star_graph = graph_of (map (\<lambda>l. (''S'', l)) leaves)"

section \<open>Termination and the iteration budget\<close>

lemma dfsAllPaths_loop_stop:
  "queue = [] \<or> 1000 \<le> i \<Longrightarrow> dfsAllPaths_loop g queue pathsArr i = (queue, pathsArr, i)"
  by (subst dfsAllPaths_loop.simps) auto

lemma dfsAllPaths_loop_step:
  "i < 1000 \<Longrightarrow>
   dfsAllPaths_loop g (c # rest) pathsArr i =
     dfsAllPaths_loop g
       (map (\<lambda>n. \<lparr>node = n, path = node c # path c\<rparr>) (succs g (node c)) @ rest)
       (if succs g (node c) = [] then pathsArr @ [node c # path c] else pathsArr)
       (Suc i)"
  by (subst dfsAllPaths_loop.simps) (simp add: Let_def)

lemma dfsAdjList_loop_stop:
  "queue = [] \<or> 1000 \<le> i \<Longrightarrow> dfsAdjList_loop g queue adjList i = (queue, adjList, i)"
  by (subst dfsAdjList_loop.simps) auto

lemma dfsAdjList_loop_step:
  "i < 1000 \<Longrightarrow>
   dfsAdjList_loop g (c # rest) adjList i =
     dfsAdjList_loop g (rev (succs g c) @ rest)
       (adjList @ map (\<lambda>succ. \<lparr>name = c, parentId = Some succ\<rparr>) (succs g c))
       (Suc i)"
  by (subst dfsAdjList_loop.simps) (simp add: Let_def)

lemma dfsAllPaths_loop_count:
  "i \<le> 1000 \<Longrightarrow> snd (snd (dfsAllPaths_loop g queue pathsArr i)) \<le> 1000"
proof (induction "1000 - i" arbitrary: queue pathsArr i)
  case 0
  then show ?case by (simp add: dfsAllPaths_loop_stop)
next
  case (Suc k)
  then have less: "i < 1000" and k: "k = 1000 - Suc i" by simp_all
  show ?case
  proof (cases queue)
    case Nil
    with Suc.prems show ?thesis by (simp add: dfsAllPaths_loop_stop)
  next
    case (Cons c rest)
    from less have "Suc i \<le> 1000" by simp
    from Suc.hyps(1) [OF k this] show ?thesis
      by (simp only: Cons dfsAllPaths_loop_step [OF less])
  qed
qed

lemma dfsAdjList_loop_count:
  "i \<le> 1000 \<Longrightarrow> snd (snd (dfsAdjList_loop g queue adjList i)) \<le> 1000"
proof (induction "1000 - i" arbitrary: queue adjList i)
  case 0
  then show ?case by (simp add: dfsAdjList_loop_stop)
next
  case (Suc k)
  then have less: "i < 1000" and k: "k = 1000 - Suc i" by simp_all
  show ?case
  proof (cases queue)
    case Nil
    with Suc.prems show ?thesis by (simp add: dfsAdjList_loop_stop)
  next
    case (Cons c rest)
    from less have "Suc i \<le> 1000" by simp
    from Suc.hyps(1) [OF k this] show ?thesis
      by (simp only: Cons dfsAdjList_loop_step [OF less])
  qed
qed

lemma dfsAllPaths_loop_at_bound: "dfsAllPaths_loop g queue pathsArr 1000 = (queue, pathsArr, 1000)"
  by (simp add: dfsAllPaths_loop_stop)

lemma dfsAdjList_loop_at_bound: "dfsAdjList_loop g queue adjList 1000 = (queue, adjList, 1000)"
  by (simp add: dfsAdjList_loop_stop)

text \<open>
  C1. Both traversals are total functions of the graph and the start node (their loops are
  defined with a termination proof, whatever the graph, cyclic or not), the counter \<open>i\<close>
  that counts the \<^verbatim>\<open>queue.shift()\<close> calls is at most 1000 when either loop is left, and a
  loop that has counted 1000 pops stops at once with whatever queue it holds.
\<close>

theorem C1_traversals_bounded:
  "snd (snd (dfsAllPaths_run g startNode)) \<le> 1000
   \<and> snd (snd (dfsAdjList_run g startNode)) \<le> 1000
   \<and> dfsAllPaths_loop g queue pathsArr 1000 = (queue, pathsArr, 1000)
   \<and> dfsAdjList_loop g queue' adjList 1000 = (queue', adjList, 1000)"
  by (simp add: dfsAllPaths_run_def dfsAdjList_run_def dfsAllPaths_loop_count
      dfsAdjList_loop_count dfsAllPaths_loop_at_bound dfsAdjList_loop_at_bound)

section \<open>Invariants of the path enumeration\<close>

lemma map_ext_step_queue:
  "map ext (step_queue g c rest) = map (\<lambda>n. n # ext c) (succs g (node c)) @ map ext rest"
  by (simp add: step_queue_def ext_def comp_def)

lemma step_paths_ext: "step_paths g c ps = (if succs g (node c) = [] then ps @ [ext c] else ps)"
  by (simp add: step_paths_def ext_def)

lemma dfsAllPaths_loop_invariant:
  assumes init: "P queue pathsArr"
  assumes step: "\<And>c rest ps. P (c # rest) ps \<Longrightarrow> P (step_queue g c rest) (step_paths g c ps)"
  shows "P (fst (dfsAllPaths_loop g queue pathsArr i)) (fst (snd (dfsAllPaths_loop g queue pathsArr i)))"
  using init
proof (induction "1000 - i" arbitrary: queue pathsArr i)
  case 0
  then show ?case by (simp add: dfsAllPaths_loop_stop)
next
  case (Suc k)
  then have less: "i < 1000" and k: "k = 1000 - Suc i" by simp_all
  show ?case
  proof (cases queue)
    case Nil
    with Suc.prems show ?thesis by (simp add: dfsAllPaths_loop_stop)
  next
    case (Cons c rest)
    from Suc.prems have "P (c # rest) pathsArr" by (simp add: Cons)
    from Suc.hyps(1) [OF k step [OF this]] show ?thesis
      by (simp only: Cons dfsAllPaths_loop_step [OF less] step_queue_def step_paths_def)
  qed
qed

lemma sound_inv_step:
  assumes "sound_inv g s (c # rest) ps"
  shows "sound_inv g s (step_queue g c rest) (step_paths g c ps)"
proof -
  from assms have c: "is_chain g (ext c)" "last (ext c) = s"
    and rest: "\<forall>q \<in> set rest. is_chain g (ext q) \<and> last (ext q) = s"
    and ps: "\<forall>p \<in> set ps. sink_walk g s p"
    by (simp_all add: sound_inv_def)
  have new: "is_chain g (n # ext c) \<and> last (n # ext c) = s" if "n \<in> set (succs g (node c))" for n
    using that c by (simp add: ext_def)
  have q: "\<forall>q \<in> set (step_queue g c rest). is_chain g (ext q) \<and> last (ext q) = s"
  proof
    fix q assume "q \<in> set (step_queue g c rest)"
    then have "ext q \<in> set (map ext (step_queue g c rest))" by simp
    then have "ext q \<in> (\<lambda>n. n # ext c) ` set (succs g (node c)) \<or> ext q \<in> ext ` set rest"
      by (simp only: map_ext_step_queue set_append set_map Un_iff)
    then show "is_chain g (ext q) \<and> last (ext q) = s"
      using new rest by auto
  qed
  have "sink_walk g s (ext c)" if "succs g (node c) = []"
    using that c by (simp add: sink_walk_def) (simp add: ext_def)
  with ps have "\<forall>p \<in> set (step_paths g c ps). sink_walk g s p"
    by (simp add: step_paths_ext)
  with q show ?thesis by (simp add: sound_inv_def)
qed

lemma is_chain_append_edge:
  "is_chain g (w @ x # r) \<Longrightarrow> w \<noteq> [] \<Longrightarrow> last w \<in> set (succs g x)"
proof (induction w)
  case Nil
  then show ?case by simp
next
  case (Cons a w)
  show ?case
  proof (cases w)
    case Nil
    with Cons.prems show ?thesis by simp
  next
    case (Cons b w')
    with Cons.prems Cons.IH show ?thesis by simp
  qed
qed

lemma sink_walk_extend:
  assumes p: "sink_walk g s p" and suf: "suffix (x # r) p"
  shows "(succs g x = [] \<and> p = x # r) \<or> (\<exists>n \<in> set (succs g x). suffix (n # x # r) p)"
proof -
  from suf obtain w where w: "p = w @ x # r" by (auto simp: suffix_def)
  from p have ch: "is_chain g (w @ x # r)" and sink: "succs g (hd p) = []"
    by (simp_all add: sink_walk_def w)
  show ?thesis
  proof (cases "w = []")
    case True
    with sink w show ?thesis by simp
  next
    case False
    from is_chain_append_edge [OF ch False] have e: "last w \<in> set (succs g x)" .
    from False have "p = butlast w @ (last w # x # r)" by (simp add: w)
    then have "suffix (last w # x # r) p" by (metis suffixI)
    with e show ?thesis by blast
  qed
qed

lemma complete_inv_step:
  assumes "complete_inv g s (c # rest) ps"
  shows "complete_inv g s (step_queue g c rest) (step_paths g c ps)"
  unfolding complete_inv_def
proof (intro allI impI)
  fix p assume p: "sink_walk g s p"
  with assms consider "p \<in> set ps" | "suffix (ext c) p" | "\<exists>q \<in> set rest. suffix (ext q) p"
    by (auto simp: complete_inv_def)
  then show "p \<in> set (step_paths g c ps) \<or> (\<exists>q \<in> set (step_queue g c rest). suffix (ext q) p)"
  proof cases
    case 1
    then show ?thesis by (simp add: step_paths_def)
  next
    case 2
    then have "suffix (node c # path c) p" by (simp add: ext_def)
    from sink_walk_extend [OF p this] show ?thesis
    proof
      assume "succs g (node c) = [] \<and> p = node c # path c"
      then show ?thesis by (simp add: step_paths_def)
    next
      assume "\<exists>n \<in> set (succs g (node c)). suffix (n # node c # path c) p"
      then obtain n where n: "n \<in> set (succs g (node c))" and s: "suffix (n # node c # path c) p"
        by blast
      let ?q = "\<lparr>node = n, path = node c # path c\<rparr>"
      from n have "?q \<in> set (step_queue g c rest)" by (simp add: step_queue_def)
      moreover from s have "suffix (ext ?q) p" by (simp add: ext_def)
      ultimately show ?thesis by blast
    qed
  next
    case 3
    then show ?thesis by (auto simp: step_queue_def)
  qed
qed



lemma suffix_Cons_self: "\<not> suffix (n # e) e"
  by (auto dest: suffix_length_le)

lemma suffix_same_length: "suffix x y \<Longrightarrow> length x = length y \<Longrightarrow> x = y"
  by (auto simp: suffix_def)

lemma unique_inv_step:
  assumes inv: "unique_inv (c # rest) ps" and d: "distinct (succs g (node c))"
  shows "unique_inv (step_queue g c rest) (step_paths g c ps)"
proof -
  define e where "e = ext c"
  define E where "E = map ext rest"
  define N where "N = map (\<lambda>n. n # e) (succs g (node c))"
  from inv have dps: "distinct ps" and eE: "e \<notin> set E" and dE: "distinct E"
    and anti: "\<And>x y. x \<in> insert e (set E) \<Longrightarrow> y \<in> insert e (set E) \<Longrightarrow> suffix x y \<Longrightarrow> x = y"
    and sep: "\<And>p x. p \<in> set ps \<Longrightarrow> x \<in> insert e (set E) \<Longrightarrow> \<not> suffix x p"
    by (auto simp: unique_inv_def e_def E_def)
  have q: "map ext (step_queue g c rest) = N @ E"
    by (simp add: map_ext_step_queue N_def E_def e_def)
  have N_suf: "suffix e x" if "x \<in> set N" for x
    using that by (auto simp: N_def suffix_def)
  have N_ne: "x \<noteq> e" if "x \<in> set N" for x
    using that by (auto simp: N_def)
  have N_len: "length x = Suc (length e)" if "x \<in> set N" for x
    using that by (auto simp: N_def)
  have NE: "x \<notin> set E" if "x \<in> set N" for x
  proof
    assume "x \<in> set E"
    with anti [of e x] N_suf [OF that] have "e = x" by simp
    with N_ne [OF that] show False by simp
  qed
  have dN: "distinct N"
    using d by (simp add: N_def distinct_map inj_on_def)
  have 1: "distinct (N @ E)"
    using dN dE NE by auto
  have 2: "x = y" if x: "x \<in> set (N @ E)" and y: "y \<in> set (N @ E)" and s: "suffix x y" for x y
  proof -
    consider "x \<in> set N" "y \<in> set N" | "x \<in> set N" "y \<in> set E"
      | "x \<in> set E" "y \<in> set N" | "x \<in> set E" "y \<in> set E"
      using x y by auto
    then show ?thesis
    proof cases
      case 1
      then show ?thesis using s by (simp add: suffix_same_length N_len)
    next
      case 2
      from N_suf [OF 2(1)] s have "suffix e y" by (rule suffix_order.trans)
      with anti [of e y] 2(2) have "e = y" by simp
      with eE 2(2) show ?thesis by simp
    next
      case 3
      from 3(2) obtain n where yn: "y = n # e" by (auto simp: N_def)
      from s have "x = y \<or> suffix x e" by (simp add: yn suffix_Cons)
      then show ?thesis
      proof
        assume "suffix x e"
        with anti [of x e] 3(1) have "x = e" by simp
        with eE 3(1) show ?thesis by simp
      qed
    next
      case 4
      then show ?thesis using anti s by simp
    qed
  qed
  have 3: "\<not> suffix x p" if p: "p \<in> set ps" and x: "x \<in> set (N @ E)" for p x
  proof (cases "x \<in> set N")
    case True
    show ?thesis
    proof
      assume "suffix x p"
      with N_suf [OF True] have "suffix e p" by (rule suffix_order.trans)
      with sep [OF p, of e] show False by simp
    qed
  next
    case False
    with x sep [OF p, of x] show ?thesis by simp
  qed
  show ?thesis
  proof (cases "succs g (node c) = []")
    case False
    then have "step_paths g c ps = ps" by (simp add: step_paths_def)
    with dps 1 2 3 show ?thesis
      unfolding unique_inv_def q by (auto simp only:)
  next
    case True
    then have sp: "step_paths g c ps = ps @ [e]" and Nnil: "N = []"
      by (simp_all add: step_paths_ext e_def N_def)
    have "e \<notin> set ps"
      using sep [of e e] by auto
    with dps have a: "distinct (ps @ [e])" by simp
    have b: "\<not> suffix x p" if p: "p \<in> set (ps @ [e])" and x: "x \<in> set E" for p x
    proof (cases "p = e")
      case True
      show ?thesis
      proof
        assume "suffix x p"
        with anti [of x e] x True have "x = e" by simp
        with eE x show False by simp
      qed
    next
      case False
      with p have "p \<in> set ps" by simp
      from sep [OF this, of x] x show ?thesis by simp
    qed
    from a b 1 2 show ?thesis
      unfolding unique_inv_def q sp Nnil by (auto simp only: append_Nil)
  qed
qed

lemma dfsAllPaths_run_invs:
  "sound_inv g s (fst (dfsAllPaths_run g s)) (dfsAllPaths g s)"
  "complete_inv g s (fst (dfsAllPaths_run g s)) (dfsAllPaths g s)"
proof -
  let ?q = "[\<lparr>node = s, path = []\<rparr>]"
  have "sound_inv g s ?q []"
    by (simp add: sound_inv_def ext_def)
  then show "sound_inv g s (fst (dfsAllPaths_run g s)) (dfsAllPaths g s)"
    unfolding dfsAllPaths_def dfsAllPaths_run_def
    by (rule dfsAllPaths_loop_invariant) (rule sound_inv_step)
  have "complete_inv g s ?q []"
  proof -
    have "suffix [s] p" if "sink_walk g s p" for p
    proof -
      from that have "p \<noteq> []" "last p = s" by (auto simp: sink_walk_def)
      then have "p = butlast p @ [s]" by (metis append_butlast_last_id)
      then show ?thesis by (metis suffixI)
    qed
    then show ?thesis by (simp add: complete_inv_def ext_def)
  qed
  then show "complete_inv g s (fst (dfsAllPaths_run g s)) (dfsAllPaths g s)"
    unfolding dfsAllPaths_def dfsAllPaths_run_def
    by (rule dfsAllPaths_loop_invariant) (rule complete_inv_step)
qed

lemma dfsAllPaths_sound: "p \<in> set (dfsAllPaths g s) \<Longrightarrow> sink_walk g s p"
  using dfsAllPaths_run_invs(1) [of g s] by (simp add: sound_inv_def)

lemma dfsAllPaths_complete:
  "fst (dfsAllPaths_run g s) = [] \<Longrightarrow> sink_walk g s p \<Longrightarrow> p \<in> set (dfsAllPaths g s)"
  using dfsAllPaths_run_invs(2) [of g s] by (auto simp: complete_inv_def)

lemma dfsAllPaths_distinct:
  assumes "wf_graph g"
  shows "distinct (dfsAllPaths g s)"
proof -
  let ?q = "[\<lparr>node = s, path = []\<rparr>]"
  have "unique_inv ?q []" by (simp add: unique_inv_def)
  then have "unique_inv (fst (dfsAllPaths_run g s)) (dfsAllPaths g s)"
    unfolding dfsAllPaths_def dfsAllPaths_run_def
  proof (rule dfsAllPaths_loop_invariant)
    fix c rest ps assume "unique_inv (c # rest) ps"
    moreover from assms have "distinct (succs g (node c))" by (simp add: wf_graph_def)
    ultimately show "unique_inv (step_queue g c rest) (step_paths g c ps)"
      by (rule unique_inv_step)
  qed
  then show ?thesis by (simp add: unique_inv_def)
qed

lemma is_chain_nonempty: "is_chain g p \<Longrightarrow> p \<noteq> []"
  by (cases p) auto

lemma walk_snoc:
  "walk g (xs @ [a]) = (xs = [] \<or> (walk g xs \<and> a \<in> set (succs g (last xs))))"
proof (induction xs rule: walk.induct)
  case (1 g)
  show ?case by simp
next
  case (2 g x)
  show ?case by simp
next
  case (3 g x y r)
  then show ?case by auto
qed

lemma is_chain_walk: "is_chain g p = walk g (rev p)"
proof (induction g p rule: is_chain.induct)
  case (1 g)
  show ?case by simp
next
  case (2 g x)
  show ?case by simp
next
  case (3 g x y r)
  have "walk g (rev (x # y # r)) = walk g ((rev r @ [y]) @ [x])" by simp
  also have "\<dots> = (walk g (rev r @ [y]) \<and> x \<in> set (succs g y))"
    by (subst walk_snoc) simp
  finally show ?case using 3 by auto
qed

lemma reachable_chain:
  "(s, t) \<in> (edge_rel g)\<^sup>* \<longleftrightarrow> (\<exists>p. is_chain g p \<and> last p = s \<and> hd p = t)"
proof
  assume "(s, t) \<in> (edge_rel g)\<^sup>*"
  then show "\<exists>p. is_chain g p \<and> last p = s \<and> hd p = t"
  proof (induction rule: rtrancl_induct)
    case base
    have "is_chain g [s] \<and> last [s] = s \<and> hd [s] = s" by simp
    then show ?case by blast
  next
    case (step y z)
    then obtain p where p: "is_chain g p" "last p = s" "hd p = y" by blast
    then obtain r where pr: "p = y # r" by (cases p) auto
    from step.hyps(2) have "z \<in> set (succs g y)" by (simp add: edge_rel_def)
    with p pr have "is_chain g (z # p) \<and> last (z # p) = s \<and> hd (z # p) = z" by simp
    then show ?case by blast
  qed
next
  assume "\<exists>p. is_chain g p \<and> last p = s \<and> hd p = t"
  then obtain p where "is_chain g p" "last p = s" "hd p = t" by blast
  then show "(s, t) \<in> (edge_rel g)\<^sup>*"
  proof (induction g p arbitrary: t rule: is_chain.induct)
    case (1 g)
    then show ?case by simp
  next
    case (2 g x)
    then show ?case by simp
  next
    case (3 g x y r)
    then have "(s, y) \<in> (edge_rel g)\<^sup>*" by simp
    moreover from 3 have "(y, t) \<in> edge_rel g" by (simp add: edge_rel_def)
    ultimately show ?case by (rule rtrancl_into_rtrancl)
  qed
qed

lemma reachable_sinks_walks: "reachable_sinks g s = hd ` {p. sink_walk g s p}"
proof (rule set_eqI)
  fix t
  have "t \<in> reachable_sinks g s \<longleftrightarrow> (\<exists>p. is_chain g p \<and> last p = s \<and> hd p = t) \<and> succs g t = []"
    by (simp add: reachable_sinks_def reachable_chain)
  also have "\<dots> \<longleftrightarrow> t \<in> hd ` {p. sink_walk g s p}"
    by (auto simp: sink_walk_def image_iff)
  finally show "t \<in> reachable_sinks g s \<longleftrightarrow> t \<in> hd ` {p. sink_walk g s p}" .
qed

text \<open>
  When the traversal empties its queue, the returned paths are exactly the walks from the
  start node to a sink, each returned once; and on a tree-shaped graph there is one
  returned path per sink reachable from the start node.
\<close>

lemma dfsAllPaths_exact:
  assumes wf: "wf_graph g" and fin: "fst (dfsAllPaths_run g s) = []"
  shows "set (dfsAllPaths g s) = {p. sink_walk g s p}
         \<and> distinct (dfsAllPaths g s)
         \<and> (tree_shaped g s \<longrightarrow> bij_betw hd (set (dfsAllPaths g s)) (reachable_sinks g s))"
proof -
  have eq: "set (dfsAllPaths g s) = {p. sink_walk g s p}"
    using dfsAllPaths_sound dfsAllPaths_complete [OF fin] by blast
  have "bij_betw hd (set (dfsAllPaths g s)) (reachable_sinks g s)" if t: "tree_shaped g s"
  proof -
    have "inj_on hd {p. sink_walk g s p}"
      using t by (auto simp: inj_on_def tree_shaped_def sink_walk_def)
    then show ?thesis
      by (simp add: bij_betw_def eq reachable_sinks_walks)
  qed
  with eq dfsAllPaths_distinct [OF wf] show ?thesis by blast
qed

section \<open>Runs on concrete graphs\<close>

lemmas graph_eval = succs_def graph_of_def children_graph_def cycle_graph_def diamond_graph_def
  diamond_tail_graph_def leaf_and_cycle_graph_def leaf_graph_def outline_graph_def

lemmas dfsAllPaths_eval = dfsAllPaths_def dfsAllPaths_run_def dfsAllPaths_loop_step
  dfsAllPaths_loop_stop

lemma wf_graph_graph_of: "wf_graph (graph_of es)"
  by (simp add: wf_graph_def succs_def graph_of_def)

lemma children_run:
  "dfsAllPaths_run children_graph ''Root'' = ([], [[''Leaf'', ''Mid'', ''Root'']], 3)"
  by (simp add: dfsAllPaths_eval graph_eval)

lemma diamond_run:
  "dfsAllPaths_run diamond_graph ''A'' = ([], [[''D'', ''B'', ''A''], [''D'', ''C'', ''A'']], 5)"
  by (simp add: dfsAllPaths_eval graph_eval)

lemma empty_run: "dfsAllPaths_run (graph_of []) ''X'' = ([], [[''X'']], 1)"
  by (simp add: dfsAllPaths_eval graph_eval)

text \<open>
  C10. Every returned path is non-empty, has the start node as its last element and a node
  without successors as its first element; and when the start node has no successors (also
  when the graph does not hold it), the result is the single path that holds the start node.
\<close>

theorem C10_paths_end_at_start:
  "(\<forall>p \<in> set (dfsAllPaths g s). p \<noteq> [] \<and> last p = s \<and> succs g (hd p) = [])
   \<and> (succs g s = [] \<longrightarrow> dfsAllPaths g s = [[s]])"
proof
  show "\<forall>p \<in> set (dfsAllPaths g s). p \<noteq> [] \<and> last p = s \<and> succs g (hd p) = []"
    using dfsAllPaths_sound [of _ g s] by (auto simp: sink_walk_def dest: is_chain_nonempty)
  show "succs g s = [] \<longrightarrow> dfsAllPaths g s = [[s]]"
    by (simp add: dfsAllPaths_eval)
qed

text \<open>C10 on the children graph from Root, and on the empty graph from a node it does not hold.\<close>

theorem C10_paths_end_at_start_witness:
  "dfsAllPaths children_graph ''Root'' = [[''Leaf'', ''Mid'', ''Root'']]
   \<and> last [''Leaf'', ''Mid'', ''Root''] = ''Root''
   \<and> succs children_graph (hd [''Leaf'', ''Mid'', ''Root'']) = []
   \<and> successors (graph_of []) ''X'' = None
   \<and> dfsAllPaths (graph_of []) ''X'' = [[''X'']]"
proof -
  have r: "dfsAllPaths children_graph ''Root'' = [[''Leaf'', ''Mid'', ''Root'']]"
    by (simp add: dfsAllPaths_def children_run)
  have e: "succs (graph_of []) ''X'' = []" by (simp add: graph_eval)
  from C10_paths_end_at_start [of children_graph "''Root''"] r
  have "last [''Leaf'', ''Mid'', ''Root''] = ''Root''
        \<and> succs children_graph (hd [''Leaf'', ''Mid'', ''Root'']) = []" by simp
  moreover from C10_paths_end_at_start [of "graph_of []" "''X''"] e
  have "dfsAllPaths (graph_of []) ''X'' = [[''X'']]" by simp
  moreover have "successors (graph_of []) ''X'' = None" by (simp add: graph_eval)
  ultimately show ?thesis using r by simp
qed

text \<open>
  C2 as stated fails on its own example: the result is not the path Root, Mid, Leaf, the
  one returned path starts at Leaf, not at the start node, and ends at Root, which has a
  successor.
\<close>

theorem C2_counterexample:
  "dfsAllPaths children_graph ''Root'' \<noteq> [[''Root'', ''Mid'', ''Leaf'']]
   \<and> hd (hd (dfsAllPaths children_graph ''Root'')) \<noteq> ''Root''
   \<and> succs children_graph (last (hd (dfsAllPaths children_graph ''Root''))) \<noteq> []"
  by (simp add: dfsAllPaths_def children_run) (simp add: graph_eval)

text \<open>
  C2, as the code has it. Every returned path lists its nodes from the sink back to the
  start node: read in reverse it is a walk along the edges of the graph that starts at the
  start node and ends at a node without successors. For the children graph with the edges
  Root -> Mid and Mid -> Leaf the result from Root is the one path Leaf, Mid, Root.
\<close>

theorem C2_paths_sink_first:
  "(\<forall>p \<in> set (dfsAllPaths g s). walk g (rev p) \<and> hd (rev p) = s \<and> succs g (last (rev p)) = [])
   \<and> dfsAllPaths children_graph ''Root'' = [[''Leaf'', ''Mid'', ''Root'']]"
proof
  show "\<forall>p \<in> set (dfsAllPaths g s). walk g (rev p) \<and> hd (rev p) = s \<and> succs g (last (rev p)) = []"
  proof
    fix p assume "p \<in> set (dfsAllPaths g s)"
    then have sw: "sink_walk g s p" by (rule dfsAllPaths_sound)
    then have ne: "p \<noteq> []" by (auto simp: sink_walk_def dest: is_chain_nonempty)
    from sw ne show "walk g (rev p) \<and> hd (rev p) = s \<and> succs g (last (rev p)) = []"
      by (simp add: sink_walk_def is_chain_walk hd_rev last_rev)
  qed
  show "dfsAllPaths children_graph ''Root'' = [[''Leaf'', ''Mid'', ''Root'']]"
    by (simp add: dfsAllPaths_def children_run)
qed

text \<open>C2 on the diamond: the returned path D, B, A read in reverse is a walk from A to the sink D.\<close>

theorem C2_paths_sink_first_witness:
  "walk diamond_graph (rev [''D'', ''B'', ''A''])
   \<and> hd (rev [''D'', ''B'', ''A'']) = ''A''
   \<and> succs diamond_graph (last (rev [''D'', ''B'', ''A''])) = []"
proof -
  have "[''D'', ''B'', ''A''] \<in> set (dfsAllPaths diamond_graph ''A'')"
    by (simp add: dfsAllPaths_def diamond_run)
  with C2_paths_sink_first [of diamond_graph "''A''"] show ?thesis by blast
qed

lemma single_successor_run:
  assumes closed: "\<forall>n \<in> C. \<exists>m \<in> C. succs g n = [m]"
  shows "node q \<in> C \<Longrightarrow> i \<le> 1000 \<Longrightarrow>
         \<exists>q'. dfsAllPaths_loop g [q] ps i = ([q'], ps, 1000)"
proof (induction "1000 - i" arbitrary: q i)
  case 0
  then have "i = 1000" by simp
  then show ?case by (simp add: dfsAllPaths_loop_stop)
next
  case (Suc k)
  then have less: "i < 1000" and k: "k = 1000 - Suc i" by simp_all
  from closed Suc.prems(1) obtain m where m: "m \<in> C" "succs g (node q) = [m]" by blast
  let ?q = "\<lparr>node = m, path = node q # path q\<rparr>"
  from m(1) have "node ?q \<in> C" by simp
  moreover from less have "Suc i \<le> 1000" by simp
  ultimately have "\<exists>q'. dfsAllPaths_loop g [?q] ps (Suc i) = ([q'], ps, 1000)"
    by (rule Suc.hyps(1) [OF k])
  then show ?case
    by (simp add: dfsAllPaths_loop_step [OF less] m(2))
qed

lemma cycle_run: "\<exists>q'. dfsAllPaths_run cycle_graph ''A'' = ([q'], [], 1000)"
  unfolding dfsAllPaths_run_def
proof (rule single_successor_run [where C = "{''A'', ''B''}"])
  show "\<forall>n \<in> {''A'', ''B''}. \<exists>m \<in> {''A'', ''B''}. succs cycle_graph n = [m]"
    by (simp add: graph_eval)
qed simp_all

text \<open>C4 as stated fails: on the cycle A -> B -> A the result from A is not non-empty.\<close>

theorem C4_counterexample: "\<not> dfsAllPaths cycle_graph ''A'' \<noteq> []"
  using cycle_run by (auto simp: dfsAllPaths_def)

text \<open>
  C4, as the code has it. On the cycle A -> B -> A the traversal from A uses up the budget
  (the counter is 1000 when the loop is left, with one entry still queued) and returns the
  empty list: a cycle has no sink, so no path is ever recorded. No error is raised: the
  enumeration has no failing branch.
\<close>

theorem C4_cycle_empty_result:
  "dfsAllPaths cycle_graph ''A'' = []
   \<and> snd (snd (dfsAllPaths_run cycle_graph ''A'')) = 1000
   \<and> length (fst (dfsAllPaths_run cycle_graph ''A'')) = 1"
  using cycle_run by (auto simp: dfsAllPaths_def)

lemma leaf_and_cycle_run:
  "\<exists>q'. dfsAllPaths_run leaf_and_cycle_graph ''S'' = ([q'], [[''L'', ''S'']], 1000)"
proof -
  let ?g = leaf_and_cycle_graph
  have "dfsAllPaths_run ?g ''S''
      = dfsAllPaths_loop ?g [\<lparr>node = ''L'', path = [''S'']\<rparr>, \<lparr>node = ''A'', path = [''S'']\<rparr>] [] (Suc 0)"
    unfolding dfsAllPaths_run_def
    by (subst dfsAllPaths_loop_step) (simp_all add: graph_eval)
  also have "\<dots> = dfsAllPaths_loop ?g [\<lparr>node = ''A'', path = [''S'']\<rparr>] [[''L'', ''S'']] (Suc (Suc 0))"
    by (subst dfsAllPaths_loop_step) (simp_all add: graph_eval)
  finally have run: "dfsAllPaths_run ?g ''S''
      = dfsAllPaths_loop ?g [\<lparr>node = ''A'', path = [''S'']\<rparr>] [[''L'', ''S'']] (Suc (Suc 0))" .
  have "\<exists>q'. dfsAllPaths_loop ?g [\<lparr>node = ''A'', path = [''S'']\<rparr>] [[''L'', ''S'']] (Suc (Suc 0))
          = ([q'], [[''L'', ''S'']], 1000)"
  proof (rule single_successor_run [where C = "{''A'', ''B''}"])
    show "\<forall>n \<in> {''A'', ''B''}. \<exists>m \<in> {''A'', ''B''}. succs ?g n = [m]"
      by (simp add: graph_eval)
  qed simp_all
  with run show ?thesis by simp
qed

lemma leaf_run: "dfsAllPaths_run leaf_graph ''S'' = ([], [[''L'', ''S'']], 2)"
  by (simp add: dfsAllPaths_eval graph_eval)

text \<open>
  C9 as stated fails: the traversal from S reaches the bound on the graph with the leaf L
  and the cycle below S and does not reach it on the graph with the leaf alone, and the
  caller gets the same result from both.
\<close>

theorem C9_counterexample:
  "dfsAllPaths leaf_and_cycle_graph ''S'' = dfsAllPaths leaf_graph ''S''
   \<and> bound_reached leaf_and_cycle_graph ''S''
   \<and> \<not> bound_reached leaf_graph ''S''"
  using leaf_and_cycle_run by (auto simp: dfsAllPaths_def bound_reached_def leaf_run)

lemma children_succs:
  "succs children_graph v = (if v = ''Root'' then [''Mid''] else if v = ''Mid'' then [''Leaf''] else [])"
  by (simp add: graph_eval)

lemma children_chains:
  assumes "is_chain children_graph p" and "last p = ''Root''"
  shows "p = [''Root''] \<or> p = [''Mid'', ''Root''] \<or> p = [''Leaf'', ''Mid'', ''Root'']"
proof -
  from assms(1) have w: "walk children_graph (rev p)" by (simp add: is_chain_walk)
  from assms have h: "hd (rev p) = ''Root''" 
    by (simp add: hd_rev)
  have "r = [''Root''] \<or> r = [''Root'', ''Mid''] \<or> r = [''Root'', ''Mid'', ''Leaf'']"
    if "walk children_graph r" "hd r = ''Root''" for r
  proof (cases r)
    case Nil
    with that show ?thesis by simp
  next
    case r1: (Cons a r1)
    show ?thesis
    proof (cases r1)
      case Nil
      with that r1 show ?thesis by simp
    next
      case r2: (Cons b r2)
      show ?thesis
      proof (cases r2)
        case Nil
        with that r1 r2 show ?thesis by (auto simp: children_succs split: if_splits)
      next
        case r3: (Cons c r3)
        show ?thesis
        proof (cases r3)
          case Nil
          with that r1 r2 r3 show ?thesis by (auto simp: children_succs split: if_splits)
        next
          case (Cons d r4)
          with that r1 r2 r3 show ?thesis by (auto simp: children_succs split: if_splits)
        qed
      qed
    qed
  qed
  from this [OF w h] have "rev p = [''Root''] \<or> rev p = [''Root'', ''Mid''] \<or> rev p = [''Root'', ''Mid'', ''Leaf'']" .
  then show ?thesis by auto
qed

lemma children_tree_shaped: "tree_shaped children_graph ''Root''"
  unfolding tree_shaped_def
proof (intro allI impI)
  fix p q
  assume a: "is_chain children_graph p \<and> last p = ''Root'' \<and> is_chain children_graph q \<and> last q = ''Root'' \<and> hd p = hd q"
  then have "p = [''Root''] \<or> p = [''Mid'', ''Root''] \<or> p = [''Leaf'', ''Mid'', ''Root'']"
    and "q = [''Root''] \<or> q = [''Mid'', ''Root''] \<or> q = [''Leaf'', ''Mid'', ''Root'']"
    by (simp_all add: children_chains)
  with a show "p = q" by auto
qed

lemma diamond_sinks: "reachable_sinks diamond_graph ''A'' = {''D''}"
proof -
  have "fst (dfsAllPaths_run diamond_graph ''A'') = []" by (simp add: diamond_run)
  then have "{p. sink_walk diamond_graph ''A'' p} = set (dfsAllPaths diamond_graph ''A'')"
    using dfsAllPaths_sound dfsAllPaths_complete by blast
  then show ?thesis
    by (simp add: reachable_sinks_walks dfsAllPaths_def diamond_run)
qed

lemma dfsAllPaths_loop_prefix: "prefix ps (fst (snd (dfsAllPaths_loop g queue ps i)))"
proof -
  have "prefix ps ps" by simp
  then have "(\<lambda>q ps'. prefix ps ps') (fst (dfsAllPaths_loop g queue ps i))
               (fst (snd (dfsAllPaths_loop g queue ps i)))"
    by (rule dfsAllPaths_loop_invariant) (simp add: step_paths_def)
  then show ?thesis .
qed

text \<open>
  C9, as the code has it. The enumeration has no failing branch at the bound: what it
  returns then is the list of paths recorded so far, nothing else (every recorded path is a
  complete walk to a sink, a recorded path is never dropped or changed later, and a loop
  whose counter is 1000 returns the list it holds). The result is that list alone and does
  not expose whether the bound was reached: no function of the result tells it.
\<close>

theorem C9_no_truncation_flag:
  "(\<forall>p \<in> set (dfsAllPaths g s). sink_walk g s p)
   \<and> prefix ps (fst (snd (dfsAllPaths_loop g queue ps i)))
   \<and> fst (snd (dfsAllPaths_loop g queue ps 1000)) = ps
   \<and> \<not> (\<exists>f. \<forall>g' s'. f (dfsAllPaths g' s') = bound_reached g' s')"
proof (intro conjI)
  show "\<forall>p \<in> set (dfsAllPaths g s). sink_walk g s p"
    using dfsAllPaths_sound by blast
  show "prefix ps (fst (snd (dfsAllPaths_loop g queue ps i)))"
    by (rule dfsAllPaths_loop_prefix)
  show "fst (snd (dfsAllPaths_loop g queue ps 1000)) = ps"
    by (simp add: dfsAllPaths_loop_at_bound)
  show "\<not> (\<exists>f. \<forall>g' s'. f (dfsAllPaths g' s') = bound_reached g' s')"
  proof
    assume "\<exists>f. \<forall>g' s'. f (dfsAllPaths g' s') = bound_reached g' s'"
    then obtain f where f: "\<And>g' s'. f (dfsAllPaths g' s') = bound_reached g' s'" by blast
    from leaf_and_cycle_run have a: "dfsAllPaths leaf_and_cycle_graph ''S'' = [[''L'', ''S'']]"
      and b: "bound_reached leaf_and_cycle_graph ''S''"
      by (auto simp: dfsAllPaths_def bound_reached_def)
    have c: "dfsAllPaths leaf_graph ''S'' = [[''L'', ''S'']]" and d: "\<not> bound_reached leaf_graph ''S''"
      by (simp_all add: dfsAllPaths_def bound_reached_def leaf_run)
    from f [of leaf_and_cycle_graph "''S''"] f [of leaf_graph "''S''"] a b c d show False by simp
  qed
qed

text \<open>C9 on the graph with the leaf and the cycle: the bound is reached, the one path returned is a walk to a sink.\<close>

theorem C9_no_truncation_flag_witness:
  "bound_reached leaf_and_cycle_graph ''S''
   \<and> dfsAllPaths leaf_and_cycle_graph ''S'' = [[''L'', ''S'']]
   \<and> sink_walk leaf_and_cycle_graph ''S'' [''L'', ''S'']"
proof -
  from leaf_and_cycle_run have a: "dfsAllPaths leaf_and_cycle_graph ''S'' = [[''L'', ''S'']]"
    and b: "bound_reached leaf_and_cycle_graph ''S''"
    by (auto simp: dfsAllPaths_def bound_reached_def)
  from C9_no_truncation_flag [of leaf_and_cycle_graph "''S''"] a
  have "sink_walk leaf_and_cycle_graph ''S'' [''L'', ''S'']" by simp
  with a b show ?thesis by simp
qed

section \<open>Deduplication of the adjacency list\<close>

lemma array_includes_set: "array_includes xs x = (x \<in> set xs)"
  by (induction xs) auto

lemma findIndex_from_first:
  "P x \<Longrightarrow> (findIndex_from k P (pre @ x # rest) = k + int (length pre)) = (\<forall>y \<in> set pre. \<not> P y)"
proof (induction pre arbitrary: k)
  case Nil
  then show ?case by simp
next
  case (Cons y pre)
  from Cons.IH [OF Cons.prems, of "k + 1"] show ?case by auto
qed

lemma set_first_seen_from: "set (first_seen_from seen xs) = set xs - set seen"
  by (induction xs arbitrary: seen) auto

lemma distinct_first_seen_from: "distinct (first_seen_from seen xs)"
  by (induction xs arbitrary: seen) (auto simp: set_first_seen_from)

lemma first_seen_from_cong: "set seen = set seen' \<Longrightarrow> first_seen_from seen xs = first_seen_from seen' xs"
proof (induction xs arbitrary: seen seen')
  case Nil
  show ?case by simp
next
  case (Cons x xs)
  from Cons.prems have m: "(x \<in> set seen) = (x \<in> set seen')" by (simp only:)
  from Cons.prems have "set (x # seen) = set (x # seen')" by (simp only: list.set)
  then have "first_seen_from (x # seen) xs = first_seen_from (x # seen') xs" by (rule Cons.IH)
  moreover have "first_seen_from seen xs = first_seen_from seen' xs" using Cons.prems by (rule Cons.IH)
  ultimately show ?case by (simp only: first_seen_from.simps m)
qed

lemma same_entry: "(name t = name x \<and> parentId t = parentId x) = (t = (x :: AdjListItem))"
  by auto

lemma noDoubles_from:
  "map snd (filter (\<lambda>(index, thing). int index = findIndex (\<lambda>t. t = thing) (pre @ xs))
              (zip [length pre ..< length pre + length xs] xs))
   = first_seen_from pre xs"
proof (induction xs arbitrary: pre)
  case Nil
  show ?case by simp
next
  case (Cons x xs)
  have range: "[length pre ..< length pre + length (x # xs)]
               = length pre # [length (pre @ [x]) ..< length (pre @ [x]) + length xs]"
  proof -
    have "[length pre ..< length pre + Suc (length xs)]
          = length pre # [Suc (length pre) ..< length pre + Suc (length xs)]"
      by (rule upt_conv_Cons) simp
    then show ?thesis by simp
  qed
  have keep: "(int (length pre) = findIndex (\<lambda>t. t = x) (pre @ x # xs)) = (x \<notin> set pre)"
    using findIndex_from_first [of "\<lambda>t. t = x" x 0 pre xs] by (auto simp: findIndex_def)
  have rest: "map snd (filter (\<lambda>(index, thing). int index = findIndex (\<lambda>t. t = thing) (pre @ x # xs))
                (zip [length (pre @ [x]) ..< length (pre @ [x]) + length xs] xs))
              = first_seen_from (pre @ [x]) xs"
    using Cons.IH [of "pre @ [x]"] by simp
  have a: "first_seen_from (pre @ [x]) xs = first_seen_from (x # pre) xs"
    by (rule first_seen_from_cong) auto
  have b: "x \<in> set pre \<Longrightarrow> first_seen_from (pre @ [x]) xs = first_seen_from pre xs"
    by (rule first_seen_from_cong) auto
  let ?F = "\<lambda>(index, thing). int index = findIndex (\<lambda>t. t = thing) (pre @ x # xs)"
  have "map snd (filter ?F (zip [length pre ..< length pre + length (x # xs)] (x # xs)))
        = map snd (filter ?F ((length pre, x) # zip [length (pre @ [x]) ..< length (pre @ [x]) + length xs] xs))"
    by (simp only: range zip_Cons_Cons)
  also have "\<dots> = (if x \<in> set pre then [] else [x]) @ first_seen_from (pre @ [x]) xs"
    using keep by (simp only: filter.simps list.map rest split: if_split) simp
  also have "\<dots> = first_seen_from pre (x # xs)"
    using a b by simp
  finally show ?case by simp
qed

lemma noDoubles_first_seen: "noDoubles adjList = first_seen adjList"
  using noDoubles_from [of "[]" adjList] by (simp add: noDoubles_def first_seen_def same_entry)

lemmas dfsAdjList_eval = dfsAdjList_def dfsAdjList_run_def dfsAdjList_loop_step dfsAdjList_loop_stop

lemma diamond_tail_succs:
  "succs diamond_tail_graph v =
     (if v = ''A'' then [''B'', ''C''] else if v = ''B'' then [''D'']
      else if v = ''C'' then [''D''] else if v = ''D'' then [''E''] else [])"
  by (simp add: graph_eval)

lemma diamond_tail_adjList:
  "dfsAdjList diamond_tail_graph ''A'' =
     [\<lparr>name = ''A'', parentId = Some ''B''\<rparr>, \<lparr>name = ''A'', parentId = Some ''C''\<rparr>,
      \<lparr>name = ''C'', parentId = Some ''D''\<rparr>, \<lparr>name = ''D'', parentId = Some ''E''\<rparr>,
      \<lparr>name = ''B'', parentId = Some ''D''\<rparr>, \<lparr>name = ''D'', parentId = Some ''E''\<rparr>]"
  by (simp add: dfsAdjList_eval diamond_tail_succs)

text \<open>
  C7 as stated fails: the list \<^verbatim>\<open>dfsAdjList\<close> returns for the diamond with a tail holds the
  entry of the edge from D to E twice, once for each way that leads to D.
\<close>

theorem C7_counterexample:
  "\<not> distinct (dfsAdjList diamond_tail_graph ''A'')
   \<and> dfsAdjList diamond_tail_graph ''A'' ! 3 = \<lparr>name = ''D'', parentId = Some ''E''\<rparr>
   \<and> dfsAdjList diamond_tail_graph ''A'' ! 5 = \<lparr>name = ''D'', parentId = Some ''E''\<rparr>"
  by (simp add: diamond_tail_adjList)

text \<open>
  C7, as the code has it. \<^verbatim>\<open>dfsAdjList\<close> returns one entry per edge it walks, repetitions
  included; the filter \<^verbatim>\<open>noDoubles\<close> that \<^verbatim>\<open>draw\<close> applies before it builds the hierarchy
  collapses them: in the filtered list no two entries have the same name and the same
  parent, it holds the same entries as the unfiltered list, and it is the unfiltered list
  with every entry kept at its first occurrence only.
\<close>

theorem C7_noDoubles_unique:
  "distinct (map (\<lambda>t. (name t, parentId t)) (noDoubles (dfsAdjList g startNode)))
   \<and> set (noDoubles (dfsAdjList g startNode)) = set (dfsAdjList g startNode)
   \<and> noDoubles (dfsAdjList g startNode) = first_seen (dfsAdjList g startNode)"
proof -
  have "inj (\<lambda>t :: AdjListItem. (name t, parentId t))"
    by (rule injI) simp
  then have "distinct (map (\<lambda>t. (name t, parentId t)) (first_seen (dfsAdjList g startNode)))"
    by (simp add: distinct_map first_seen_def distinct_first_seen_from inj_on_def)
  then show ?thesis
    by (simp add: noDoubles_first_seen) (simp add: first_seen_def set_first_seen_from)
qed

text \<open>C7 on the diamond with a tail: the second entry of the edge from D to E is gone.\<close>

theorem C7_noDoubles_unique_witness:
  "noDoubles (dfsAdjList diamond_tail_graph ''A'') =
     [\<lparr>name = ''A'', parentId = Some ''B''\<rparr>, \<lparr>name = ''A'', parentId = Some ''C''\<rparr>,
      \<lparr>name = ''C'', parentId = Some ''D''\<rparr>, \<lparr>name = ''D'', parentId = Some ''E''\<rparr>,
      \<lparr>name = ''B'', parentId = Some ''D''\<rparr>]"
proof -
  from C7_noDoubles_unique [of diamond_tail_graph "''A''"]
  have "noDoubles (dfsAdjList diamond_tail_graph ''A'') = first_seen (dfsAdjList diamond_tail_graph ''A'')"
    by simp
  then show ?thesis by (simp add: diamond_tail_adjList first_seen_def)
qed

section \<open>Real and implied links\<close>

lemma removeDuplicateImplied_filter:
  "removeDuplicateImplied reals implieds = filter (\<lambda>implied. to implied \<notin> to ` set reals) implieds"
  by (simp add: removeDuplicateImplied_def array_includes_set)

lemma removeDuplicateImplied_disjoint:
  "set (map to reals) \<inter> set (map to (removeDuplicateImplied reals implieds)) = {}"
proof -
  have "x \<notin> to ` set reals" if "x \<in> set (map to (removeDuplicateImplied reals implieds))" for x
  proof -
    from that obtain i where "i \<in> set implieds" "to i \<notin> to ` set reals" "x = to i"
      unfolding removeDuplicateImplied_filter by auto
    then show ?thesis by simp
  qed
  then show ?thesis by auto
qed
text \<open>
  C8. In each of the three squares \<^verbatim>\<open>draw\<close> hands to the view, for any graphs and any
  current file, no target is both among the real items and among the implied items; and
  \<^verbatim>\<open>removeDuplicateImplied\<close> returns, in their order, exactly the implied entries whose
  target is not the target of a real entry.
\<close>

theorem C8_real_implied_disjoint:
  "(case draw_squares unresolvedLinks settings gParents gSiblings gChildren currFile of
      (parentsSquare, siblingSquare, childrenSquare) \<Rightarrow>
        set (map to (realItems parentsSquare)) \<inter> set (map to (impliedItems parentsSquare)) = {}
        \<and> set (map to (realItems siblingSquare)) \<inter> set (map to (impliedItems siblingSquare)) = {}
        \<and> set (map to (realItems childrenSquare)) \<inter> set (map to (impliedItems childrenSquare)) = {})
   \<and> removeDuplicateImplied reals implieds
       = filter (\<lambda>implied. to implied \<notin> to ` set reals) implieds"
  by (simp add: draw_squares_def Let_def removeDuplicateImplied_disjoint
      removeDuplicateImplied_filter [symmetric] del: set_map)

lemma family_queries:
  "successors family_parents ''Child'' = Some [''ParentA'', ''ParentB'']"
  "predecessors family_parents ''Child'' = Some []"
  "predecessors family_parents ''ParentA'' = Some [''Child'', ''Sib'']"
  "predecessors family_parents ''ParentB'' = Some [''Child'']"
  "successors family_children ''Child'' = Some []"
  "predecessors family_children ''Child'' = Some [''ParentA'', ''ParentC'']"
  "successors (graph_of []) ''Child'' = None"
  "predecessors (graph_of []) ''Child'' = None"
  by (simp_all add: family_parents_def family_children_def graph_of_def)

text \<open>
  Two parents sharing one child: ParentA and ParentB are real parents of Child; the
  children graph implies ParentA and ParentC, and only ParentC is left as implied parent;
  Sib, the other note below ParentA, is the implied sibling.
\<close>

lemma family_squares:
  "(case draw_squares Map.empty settings family_parents (graph_of []) family_children
           \<lparr>basename = ''Child'', path = ''Child.md''\<rparr> of
      (parentsSquare, siblingSquare, childrenSquare) \<Rightarrow>
        (map to (realItems parentsSquare), map to (impliedItems parentsSquare),
         map to (realItems siblingSquare), map to (impliedItems siblingSquare),
         map to (realItems childrenSquare), map to (impliedItems childrenSquare)))
   = ([''ParentA'', ''ParentB''], [''ParentC''], [], [''Sib''], [], [])"
  by (simp add: draw_squares_def squareItems_def impliedSiblingsOf_def removeDuplicateImplied_def
      family_queries indexOf_def splice1_def unresolvedQ_def Let_def)

section \<open>The outline\<close>

lemma visit_node_ordinary:
  assumes n: "ordinary n" and t: "tracks visited S"
  shows "\<exists>visited'. visit_node settings aliasesOf n d (index, visited)
           = Inr (index @ (if (n, d) \<in> S then [] else outline_line settings aliasesOf n d), visited')
         \<and> tracks visited' (insert (n, d) S)"
proof -
  from t have h: "own visited ''hasOwnProperty'' = None"
    and S: "\<And>n d. ((n, d) \<in> S) = (\<exists>ds. own visited n = Some ds \<and> d \<in> set ds)"
    by (simp_all add: tracks_def)
  from n have n1: "n \<noteq> ''__proto__''" and n2: "n \<noteq> ''hasOwnProperty''"
    by (simp_all add: ordinary_def)
  show ?thesis
  proof (cases "own visited n")
    case None
    then have notin: "(n, d) \<notin> S" by (simp add: S)
    let ?v = "visited\<lparr>own := (own visited)(n \<mapsto> [d])\<rparr>"
    have "visit_node settings aliasesOf n d (index, visited)
            = Inr (index @ outline_line settings aliasesOf n d, ?v)"
      using None h n1
      by (simp add: visit_node_def hasOwnProperty_def assign_empty_def push_depth_def)
    moreover have "tracks ?v (insert (n, d) S)"
      using h n2 None by (auto simp: tracks_def S)
    ultimately show ?thesis using notin by auto
  next
    case (Some ds)
    show ?thesis
    proof (cases "d \<in> set ds")
      case True
      then have "(n, d) \<in> S" using Some by (simp add: S)
      moreover have "visit_node settings aliasesOf n d (index, visited) = Inr (index, visited)"
        using Some h True
        by (simp add: visit_node_def hasOwnProperty_def array_includes_set)
      moreover from \<open>(n, d) \<in> S\<close> have "insert (n, d) S = S" by auto
      ultimately show ?thesis using t by auto
    next
      case False
      then have notin: "(n, d) \<notin> S" using Some by (simp add: S)
      let ?v = "visited\<lparr>own := (own visited)(n \<mapsto> ds @ [d])\<rparr>"
      have "visit_node settings aliasesOf n d (index, visited)
              = Inr (index @ outline_line settings aliasesOf n d, ?v)"
        using Some h n1 False
        by (simp add: visit_node_def hasOwnProperty_def push_depth_def array_includes_set)
      moreover have "tracks ?v (insert (n, d) S)"
        using h n2 Some by (auto simp: tracks_def S)
      ultimately show ?thesis using notin by auto
    qed
  qed
qed

lemma first_seen_from_in:
  "x \<in> set seen \<Longrightarrow> first_seen_from (x # seen) xs = first_seen_from seen xs"
  by (rule first_seen_from_cong) auto

lemma first_seen_from_append:
  "first_seen_from seen (xs @ ys) = first_seen_from seen xs @ first_seen_from (rev xs @ seen) ys"
proof (induction xs arbitrary: seen)
  case Nil
  show ?case by simp
next
  case (Cons x xs)
  have a: "first_seen_from (rev xs @ x # seen) ys = first_seen_from (rev (x # xs) @ seen) ys"
    by (rule first_seen_from_cong) simp
  have b: "x \<in> set seen \<Longrightarrow> first_seen_from (rev xs @ seen) ys = first_seen_from (rev (x # xs) @ seen) ys"
    by (rule first_seen_from_cong) auto
  show ?case
  proof (cases "x \<in> set seen")
    case True
    with Cons.IH [of seen] b show ?thesis by (simp del: rev.simps)
  next
    case False
    with Cons.IH [of "x # seen"] a show ?thesis by (simp del: rev.simps)
  qed
qed

lemma visit_path_ordinary:
  assumes "\<forall>n \<in> set p. ordinary n" and "tracks visited (set seen)"
  shows "\<exists>visited'. visit_path settings aliasesOf p d (index, visited)
           = Inr (index @ render settings aliasesOf (first_seen_from seen (zip p [d ..< d + length p])), visited')
         \<and> tracks visited' (set (zip p [d ..< d + length p]) \<union> set seen)"
  using assms
proof (induction p arbitrary: d index visited seen)
  case Nil
  then show ?case by (simp add: render_def)
next
  case (Cons n p)
  have z: "zip (n # p) [d ..< d + length (n # p)] = (n, d) # zip p [d + 1 ..< d + 1 + length p]"
  proof -
    have "[d ..< d + Suc (length p)] = d # [Suc d ..< d + Suc (length p)]"
      by (rule upt_conv_Cons) simp
    then show ?thesis by simp
  qed
  from Cons.prems have n: "ordinary n" and p: "\<forall>n \<in> set p. ordinary n" by simp_all
  from visit_node_ordinary [OF n Cons.prems(2), of settings aliasesOf d index]
  obtain v1 where v1: "visit_node settings aliasesOf n d (index, visited)
           = Inr (index @ (if (n, d) \<in> set seen then [] else outline_line settings aliasesOf n d), v1)"
    and t1: "tracks v1 (set ((n, d) # seen))" by auto
  let ?index1 = "index @ (if (n, d) \<in> set seen then [] else outline_line settings aliasesOf n d)"
  from Cons.IH [OF p t1, of "d + 1" ?index1]
  obtain v2 where v2: "visit_path settings aliasesOf p (d + 1) (?index1, v1)
           = Inr (?index1 @ render settings aliasesOf
                    (first_seen_from ((n, d) # seen) (zip p [d + 1 ..< d + 1 + length p])), v2)"
    and t2: "tracks v2 (set (zip p [d + 1 ..< d + 1 + length p]) \<union> set ((n, d) # seen))" by blast
  have run: "visit_path settings aliasesOf (n # p) d (index, visited)
           = Inr (?index1 @ render settings aliasesOf
                    (first_seen_from ((n, d) # seen) (zip p [d + 1 ..< d + 1 + length p])), v2)"
    by (simp only: visit_path.simps v1 v2 sum.case)
  have same: "?index1 @ render settings aliasesOf
                    (first_seen_from ((n, d) # seen) (zip p [d + 1 ..< d + 1 + length p]))
       = index @ render settings aliasesOf (first_seen_from seen ((n, d) # zip p [d + 1 ..< d + 1 + length p]))"
    by (simp add: render_def first_seen_from_in)
  have st: "set (zip p [d + 1 ..< d + 1 + length p]) \<union> set ((n, d) # seen)
       = set ((n, d) # zip p [d + 1 ..< d + 1 + length p]) \<union> set seen"
    by auto
  from run t2 show ?case
    unfolding z same st by blast
qed

lemma visit_paths_ordinary:
  assumes "\<forall>p \<in> set ps. \<forall>n \<in> set p. ordinary n" and "tracks visited (set seen)"
  shows "\<exists>visited'. visit_paths settings aliasesOf ps (index, visited)
           = Inr (index @ render settings aliasesOf
                    (first_seen_from seen (concat (map (\<lambda>p. zip p [0 ..< length p]) ps))), visited')"
  using assms
proof (induction ps arbitrary: index visited seen)
  case Nil
  then show ?case by (simp add: render_def)
next
  case (Cons p ps)
  let ?z = "zip p [0 ..< length p]"
  from Cons.prems have p: "\<forall>n \<in> set p. ordinary n" and ps: "\<forall>p \<in> set ps. \<forall>n \<in> set p. ordinary n"
    by simp_all
  from visit_path_ordinary [OF p Cons.prems(2), of settings aliasesOf 0 index]
  obtain v1 where v1: "visit_path settings aliasesOf p 0 (index, visited)
           = Inr (index @ render settings aliasesOf (first_seen_from seen ?z), v1)"
    and t1: "tracks v1 (set ?z \<union> set seen)" by auto
  from t1 have t1': "tracks v1 (set (rev ?z @ seen))" by simp
  from Cons.IH [OF ps t1', of "index @ render settings aliasesOf (first_seen_from seen ?z)"]
  obtain v2 where v2: "visit_paths settings aliasesOf ps
             (index @ render settings aliasesOf (first_seen_from seen ?z), v1)
           = Inr ((index @ render settings aliasesOf (first_seen_from seen ?z))
                  @ render settings aliasesOf
                      (first_seen_from (rev ?z @ seen) (concat (map (\<lambda>p. zip p [0 ..< length p]) ps))), v2)"
    by blast
  have "visit_paths settings aliasesOf (p # ps) (index, visited)
           = Inr ((index @ render settings aliasesOf (first_seen_from seen ?z))
                  @ render settings aliasesOf
                      (first_seen_from (rev ?z @ seen) (concat (map (\<lambda>p. zip p [0 ..< length p]) ps))), v2)"
    by (simp only: visit_paths.simps v1 v2 sum.case)
  then show ?case
    by (simp add: first_seen_from_append render_def)
qed

text \<open>
  For node names other than the two above, \<^verbatim>\<open>createIndex\<close> never fails and adds to the
  index exactly one line per (node, depth) position of the paths, at the first occurrence
  of the position: a node is rendered at most once per depth, and again at another depth.
\<close>

lemma createIndex_ordinary:
  assumes "\<forall>p \<in> set allPaths. \<forall>n \<in> set (tl (rev p)). ordinary n"
  shows "createIndex aliasesOf index allPaths settings
           = Inr (index @ render settings aliasesOf (first_seen (occurrences allPaths)))"
proof -
  let ?ps = "map (\<lambda>p. tl (rev p)) allPaths"
  have occ: "concat (map (\<lambda>p. zip p [0 ..< length p]) ?ps) = occurrences allPaths"
    by (simp add: occurrences_def comp_def)
  have "tracks \<lparr>own = Map.empty, proto = None\<rparr> (set [])" by (simp add: tracks_def)
  moreover from assms have "\<forall>p \<in> set ?ps. \<forall>n \<in> set p. ordinary n" by simp
  ultimately obtain v where "visit_paths settings aliasesOf ?ps (index, \<lparr>own = Map.empty, proto = None\<rparr>)
       = Inr (index @ render settings aliasesOf
                (first_seen_from [] (concat (map (\<lambda>p. zip p [0 ..< length p]) ?ps))), v)"
    using visit_paths_ordinary by blast
  then have "visit_paths settings aliasesOf ?ps (index, \<lparr>own = Map.empty, proto = None\<rparr>)
       = Inr (index @ render settings aliasesOf (first_seen (occurrences allPaths)), v)"
    by (simp only: occ first_seen_def)
  then show ?thesis
    by (simp add: createIndex_def)
qed

lemmas createIndex_eval = createIndex_def visit_node_def hasOwnProperty_def assign_empty_def
  push_depth_def outline_line_def indent_def

lemma plain_outline_line:
  "outline_line \<lparr>wikilinkIndex = False, aliasesInIndex = False, showNameOrType = b,
       parentFieldName = pn, siblingFieldName = sn, childFieldName = cn\<rparr> aliasesOf currNode depth
     = replicate (2 * depth) CHR '' '' @ ''- '' @ currNode @ newline"
  by (induction depth) (simp_all add: outline_line_def indent_def)

text \<open>
  C3. For the children graph with the edges Root -> Mid and Mid -> Leaf, the paths of
  \<^verbatim>\<open>dfsAllPaths\<close> from Root given to \<^verbatim>\<open>createIndex\<close> with the initial index
  \<^verbatim>\<open>"Root\n"\<close>, without link markup and without aliases, give exactly the text
  \<^verbatim>\<open>"Root\n- Mid\n  - Leaf\n"\<close>: the one path is reversed to Root, Mid, Leaf and loses
  Root, and with these settings each line is two spaces per depth level, a bullet, the
  node and a newline.
\<close>

theorem C3_children_outline:
  "createIndex aliasesOf (''Root'' @ newline) (dfsAllPaths children_graph ''Root'')
     \<lparr>wikilinkIndex = False, aliasesInIndex = False, showNameOrType = b,
      parentFieldName = pn, siblingFieldName = sn, childFieldName = cn\<rparr>
     = Inr (''Root'' @ newline @ ''- Mid'' @ newline @ ''  - Leaf'' @ newline)
   \<and> map (\<lambda>p. tl (rev p)) (dfsAllPaths children_graph ''Root'') = [[''Mid'', ''Leaf'']]
   \<and> outline_line \<lparr>wikilinkIndex = False, aliasesInIndex = False, showNameOrType = b,
         parentFieldName = pn, siblingFieldName = sn, childFieldName = cn\<rparr> aliasesOf currNode depth
       = replicate (2 * depth) CHR '' '' @ ''- '' @ currNode @ newline"
  by (simp add: plain_outline_line) (simp add: dfsAllPaths_def children_run createIndex_eval)

lemma outline_run:
  "dfsAllPaths_run outline_graph ''A'' = ([], [[''C'', ''B'', ''A''], [''D'', ''B'', ''A'']], 4)"
  by (simp add: dfsAllPaths_eval graph_eval)

text \<open>
  The example of C6: the paths A, B, C and A, B, D, as \<^verbatim>\<open>dfsAllPaths\<close> hands them over
  (from the sink back to the root A), give B once at depth 0 and C and D once each at depth
  1; and a node met at two depths (B, below A and below C) is rendered at both.
\<close>

lemma outline_example:
  "createIndex aliasesOf (''A'' @ newline) [[''C'', ''B'', ''A''], [''D'', ''B'', ''A'']]
     \<lparr>wikilinkIndex = False, aliasesInIndex = False, showNameOrType = b,
      parentFieldName = pn, siblingFieldName = sn, childFieldName = cn\<rparr>
     = Inr (''A'' @ newline @ ''- B'' @ newline @ ''  - C'' @ newline @ ''  - D'' @ newline)"
  by (simp add: createIndex_eval)

lemma other_depth_example:
  "createIndex aliasesOf (''A'' @ newline) [[''B'', ''A''], [''B'', ''C'', ''A'']]
     \<lparr>wikilinkIndex = False, aliasesInIndex = False, showNameOrType = b,
      parentFieldName = pn, siblingFieldName = sn, childFieldName = cn\<rparr>
     = Inr (''A'' @ newline @ ''- B'' @ newline @ ''- C'' @ newline @ ''  - B'' @ newline)"
  by (simp add: createIndex_eval)

lemma method_name_run:
  "dfsAllPaths_run method_name_graph ''A''
     = ([], [[''C'', ''hasOwnProperty'', ''A''], [''D'', ''hasOwnProperty'', ''A'']], 4)"
  by (simp add: dfsAllPaths_eval succs_def graph_of_def method_name_graph_def)

text \<open>
  C6 holds for every node name but two, and fails for those. Once a node named
  \<^verbatim>\<open>hasOwnProperty\<close> has been rendered, the next test of the visited object throws: the
  example of the claim with that name for B, on the paths \<^verbatim>\<open>dfsAllPaths\<close> returns for
  it, gives a TypeError and no outline. And \<^verbatim>\<open>__proto__\<close> never becomes an own property
  of the visited object, so it is rendered again each time it is met: twice at depth 1,
  where any other name (X) is rendered once.
\<close>

theorem C6_special_names:
  "dfsAllPaths method_name_graph ''A'' = [[''C'', ''hasOwnProperty'', ''A''], [''D'', ''hasOwnProperty'', ''A'']]
   \<and> createIndex aliasesOf (''A'' @ newline) (dfsAllPaths method_name_graph ''A'')
     \<lparr>wikilinkIndex = False, aliasesInIndex = False, showNameOrType = b,
      parentFieldName = pn, siblingFieldName = sn, childFieldName = cn\<rparr>
     = Inl TypeError
   \<and> createIndex aliasesOf (''A'' @ newline) [[''__proto__'', ''B'', ''A''], [''__proto__'', ''C'', ''A'']]
     \<lparr>wikilinkIndex = False, aliasesInIndex = False, showNameOrType = b,
      parentFieldName = pn, siblingFieldName = sn, childFieldName = cn\<rparr>
     = Inr (''A'' @ newline @ ''- B'' @ newline @ ''  - __proto__'' @ newline
            @ ''- C'' @ newline @ ''  - __proto__'' @ newline)
   \<and> createIndex aliasesOf (''A'' @ newline) [[''X'', ''B'', ''A''], [''X'', ''C'', ''A'']]
     \<lparr>wikilinkIndex = False, aliasesInIndex = False, showNameOrType = b,
      parentFieldName = pn, siblingFieldName = sn, childFieldName = cn\<rparr>
     = Inr (''A'' @ newline @ ''- B'' @ newline @ ''  - X'' @ newline @ ''- C'' @ newline)"
  by (simp add: dfsAllPaths_def method_name_run) (simp add: createIndex_eval)

section \<open>The budget counts walks\<close>

lemma sinks_run:
  assumes "\<forall>q \<in> set queue. succs g (node q) = []" and "i \<le> 1000"
  shows "dfsAllPaths_loop g queue ps i
           = (drop (1000 - i) queue, ps @ map ext (take (1000 - i) queue), min 1000 (i + length queue))"
  using assms
proof (induction queue arbitrary: ps i)
  case Nil
  then show ?case by (simp add: dfsAllPaths_loop_stop)
next
  case (Cons c rest)
  show ?case
  proof (cases "i < 1000")
    case False
    with Cons.prems have "i = 1000" by simp
    then show ?thesis by (simp add: dfsAllPaths_loop_stop)
  next
    case True
    from Cons.prems have c: "succs g (node c) = []" and rest: "\<forall>q \<in> set rest. succs g (node q) = []"
      by simp_all
    from True have le: "Suc i \<le> 1000" by simp
    define m where "m = 1000 - Suc i"
    from True have e: "1000 - i = Suc m" by (simp add: m_def)
    have "dfsAllPaths_loop g (c # rest) ps i = dfsAllPaths_loop g rest (ps @ [ext c]) (Suc i)"
      by (simp add: dfsAllPaths_loop_step [OF True] c ext_def)
    also have "\<dots> = (drop m rest, (ps @ [ext c]) @ map ext (take m rest),
                       min 1000 (Suc i + length rest))"
      unfolding m_def by (rule Cons.IH [OF rest le])
    also have "\<dots> = (drop (Suc m) (c # rest), ps @ map ext (take (Suc m) (c # rest)),
                       min 1000 (i + length (c # rest)))"
      by simp
    finally show ?thesis by (simp only: e)
  qed
qed

lemma inj_leaf: "leaf j = leaf k \<Longrightarrow> j = k"
proof -
  assume "leaf j = leaf k"
  then have "length (leaf j) = length (leaf k)" by simp
  then show "j = k" by (simp add: leaf_def)
qed

lemma leaves_facts:
  "length leaves = 1000" "distinct leaves" "''S'' \<notin> set leaves" "leaves ! 999 = leaf 999"
proof -
  show "length leaves = 1000" by (simp add: leaves_def)
  show "distinct leaves"
    unfolding leaves_def by (simp add: distinct_map inj_on_def del: upt.simps) (blast dest: inj_leaf)
  show "''S'' \<notin> set leaves" by (auto simp: leaves_def leaf_def)
  have "map leaf [0 ..< 1000] ! 999 = leaf ([0 ..< 1000] ! 999)"
    by (rule nth_map) simp
  then show "leaves ! 999 = leaf 999" by (simp add: leaves_def)
qed

lemma star_succs:
  "succs star_graph ''S'' = leaves"
  "l \<in> set leaves \<Longrightarrow> succs star_graph l = []"
proof -
  have ne: "leaves \<noteq> []" using leaves_facts(1) by auto
  have f: "filter (\<lambda>e. fst e = ''S'') (map (\<lambda>l. (''S'', l)) leaves) = map (\<lambda>l. (''S'', l)) leaves"
    by (simp add: filter_map comp_def)
  have s: "map snd (map (\<lambda>l. (''S'', l)) leaves) = leaves"
    by (simp add: comp_def)
  have m: "map fst (map (\<lambda>l. (''S'', l)) leaves) = map (\<lambda>l. ''S'') leaves"
    by (simp add: comp_def)
  have mem: "''S'' \<in> set (map (\<lambda>l. ''S'') leaves)"
  proof -
    from ne have "hd leaves \<in> set leaves" by (rule hd_in_set)
    then have "(\<lambda>l. ''S'') (hd leaves) \<in> (\<lambda>l. ''S'') ` set leaves" by (rule imageI)
    then show ?thesis by simp
  qed
  have r: "remdups leaves = leaves"
    using leaves_facts(2) by (rule distinct_remdups_id)
  show "succs star_graph ''S'' = leaves"
    using mem by (simp add: succs_def star_graph_def graph_of_def f s m r del: set_map map_map)
  assume l: "l \<in> set leaves"
  with leaves_facts(3) have "l \<noteq> ''S''" by auto
  then have "filter (\<lambda>e. fst e = l) (map (\<lambda>l. (''S'', l)) leaves) = []"
    by (auto simp: filter_empty_conv)
  then show "succs star_graph l = []"
    by (simp add: succs_def star_graph_def graph_of_def del: set_map map_map)
qed

lemma star_run:
  "dfsAllPaths_run star_graph ''S''
     = (map (\<lambda>n. \<lparr>node = n, path = [''S'']\<rparr>) (drop 999 leaves),
        map (\<lambda>n. [n, ''S'']) (take 999 leaves), 1000)"
proof -
  let ?q = "map (\<lambda>n. \<lparr>node = n, path = [''S'']\<rparr>) leaves"
  have ne: "leaves \<noteq> []" using leaves_facts(1) by auto
  have "dfsAllPaths_loop star_graph [\<lparr>node = ''S'', path = []\<rparr>] [] 0
        = dfsAllPaths_loop star_graph
            (map (\<lambda>n. \<lparr>node = n, path = node \<lparr>node = ''S'', path = []\<rparr> # path \<lparr>node = ''S'', path = []\<rparr>\<rparr>)
               (succs star_graph (node \<lparr>node = ''S'', path = []\<rparr>)) @ [])
            (if succs star_graph (node \<lparr>node = ''S'', path = []\<rparr>) = []
             then [] @ [node \<lparr>node = ''S'', path = []\<rparr> # path \<lparr>node = ''S'', path = []\<rparr>] else [])
            (Suc 0)"
    by (rule dfsAllPaths_loop_step) simp
  then have "dfsAllPaths_run star_graph ''S'' = dfsAllPaths_loop star_graph ?q [] (Suc 0)"
    using ne by (simp add: dfsAllPaths_run_def star_succs(1))
  also have "\<dots> = (drop (1000 - Suc 0) ?q, [] @ map ext (take (1000 - Suc 0) ?q),
                     min 1000 (Suc 0 + length ?q))"
  proof (rule sinks_run)
    show "\<forall>q \<in> set ?q. succs star_graph (node q) = []"
      by (auto simp: star_succs(2))
  qed simp
  also have "\<dots> = (map (\<lambda>n. \<lparr>node = n, path = [''S'']\<rparr>) (drop 999 leaves),
                     map (\<lambda>n. [n, ''S'']) (take 999 leaves), 1000)"
    by (simp add: drop_map take_map comp_def ext_def leaves_facts(1))
  finally show ?thesis .
qed

lemma star_truncated:
  "sink_walk star_graph ''S'' [leaf 999, ''S'']
   \<and> [leaf 999, ''S''] \<notin> set (dfsAllPaths star_graph ''S'')
   \<and> length (dfsAllPaths star_graph ''S'') = 999
   \<and> bound_reached star_graph ''S''"
proof -
  have in_leaves: "leaf 999 \<in> set leaves"
  proof -
    have "999 < length leaves" by (simp add: leaves_facts(1))
    then have "leaves ! 999 \<in> set leaves" by (rule nth_mem)
    then show ?thesis by (simp add: leaves_facts(4))
  qed
  have "sink_walk star_graph ''S'' [leaf 999, ''S'']"
    using in_leaves by (simp add: sink_walk_def star_succs)
  moreover have "[leaf 999, ''S''] \<notin> set (dfsAllPaths star_graph ''S'')"
  proof
    assume "[leaf 999, ''S''] \<in> set (dfsAllPaths star_graph ''S'')"
    then have "leaf 999 \<in> set (take 999 leaves)"
      by (auto simp: dfsAllPaths_def star_run)
    then obtain j where j: "j < 999" "leaves ! j = leaf 999"
      by (auto simp: in_set_conv_nth leaves_facts(1))
    from j(1) have j': "j < length leaves" by (simp add: leaves_facts(1))
    have l: "999 < length leaves" by (simp add: leaves_facts(1))
    from leaves_facts(2) j' l have "(leaves ! j = leaves ! 999) = (j = 999)"
      by (rule nth_eq_iff_index_eq)
    with j show False by (simp add: leaves_facts(4))
  qed
  moreover have "length (dfsAllPaths star_graph ''S'') = 999"
    by (simp add: dfsAllPaths_def star_run leaves_facts(1))
  moreover have "bound_reached star_graph ''S''"
    by (simp add: bound_reached_def star_run)
  ultimately show ?thesis by blast
qed

lemma dfsAllPaths_loop_invariant_count:
  assumes init: "P queue i"
  assumes step: "\<And>c rest i. P (c # rest) i \<Longrightarrow> P (step_queue g c rest) (Suc i)"
  shows "P (fst (dfsAllPaths_loop g queue pathsArr i)) (snd (snd (dfsAllPaths_loop g queue pathsArr i)))
         \<and> (fst (dfsAllPaths_loop g queue pathsArr i) = []
            \<or> 1000 \<le> snd (snd (dfsAllPaths_loop g queue pathsArr i)))"
  using init
proof (induction "1000 - i" arbitrary: queue pathsArr i)
  case 0
  then show ?case by (simp add: dfsAllPaths_loop_stop)
next
  case (Suc k)
  then have less: "i < 1000" and k: "k = 1000 - Suc i" by simp_all
  show ?case
  proof (cases queue)
    case Nil
    with Suc.prems show ?thesis by (simp add: dfsAllPaths_loop_stop)
  next
    case (Cons c rest)
    from Suc.prems have "P (c # rest) i" by (simp add: Cons)
    from Suc.hyps(1) [OF k step [OF this]] show ?thesis
      by (simp only: Cons dfsAllPaths_loop_step [OF less] step_queue_def)
  qed
qed

lemma unique_inv_drop_paths: "unique_inv queue ps \<Longrightarrow> unique_inv queue []"
  by (simp add: unique_inv_def)

lemma popped_inv_step:
  assumes u: "unique_inv (c # rest) []" and p: "popped_inv g s D (c # rest)"
  shows "popped_inv g s (insert (ext c) D) (step_queue g c rest) \<and> ext c \<notin> D"
proof -
  define e where "e = ext c"
  define E where "E = map ext rest"
  define N where "N = map (\<lambda>n. n # e) (succs g (node c))"
  have q: "map ext (step_queue g c rest) = N @ E"
    by (simp add: map_ext_step_queue N_def E_def e_def)
  from u have eE: "e \<notin> set E"
    and anti: "\<And>x y. x \<in> insert e (set E) \<Longrightarrow> y \<in> insert e (set E) \<Longrightarrow> suffix x y \<Longrightarrow> x = y"
    by (auto simp: unique_inv_def e_def E_def)
  from p have fin: "finite D" and DW: "D \<subseteq> walks_from g s"
    and eW: "e \<in> walks_from g s" and EW: "set E \<subseteq> walks_from g s"
    and sep: "\<And>d x. d \<in> D \<Longrightarrow> x \<in> insert e (set E) \<Longrightarrow> \<not> suffix x d"
    by (auto simp: popped_inv_def e_def E_def)
  have eD: "e \<notin> D" using sep [of e e] by auto
  have NW: "set N \<subseteq> walks_from g s"
  proof
    fix x assume "x \<in> set N"
    then obtain n where n: "n \<in> set (succs g (node c))" and x: "x = n # e" by (auto simp: N_def)
    from eW have "is_chain g (node c # path c)" "last (node c # path c) = s"
      by (simp_all add: walks_from_def e_def ext_def)
    with n show "x \<in> walks_from g s"
      by (simp add: walks_from_def x e_def ext_def)
  qed
  have N_suf: "suffix e x" if "x \<in> set N" for x
    using that by (auto simp: N_def suffix_def)
  have sep': "\<not> suffix x d" if d: "d \<in> insert e D" and x: "x \<in> set (N @ E)" for d x
  proof
    assume s: "suffix x d"
    show False
    proof (cases "x \<in> set N")
      case True
      from N_suf [OF True] s have se: "suffix e d" by (rule suffix_order.trans)
      show False
      proof (cases "d = e")
        case True
        with s N_suf [OF \<open>x \<in> set N\<close>] have "x = e" by (simp add: suffix_order.antisym)
        with \<open>x \<in> set N\<close> show False by (auto simp: N_def)
      next
        case False
        with d have "d \<in> D" by simp
        from sep [OF this, of e] se show False by simp
      qed
    next
      case False
      with x have xE: "x \<in> set E" by simp
      show False
      proof (cases "d = e")
        case True
        with s anti [of x e] xE have "x = e" by simp
        with eE xE show False by simp
      next
        case False
        with d have "d \<in> D" by simp
        from sep [OF this, of x] xE s show False by simp
      qed
    qed
  qed
  have "popped_inv g s (insert e D) (step_queue g c rest)"
    unfolding popped_inv_def q using fin DW eW EW NW sep' by auto
  with eD show ?thesis by (simp add: e_def)
qed

lemma count_inv_step:
  assumes wf: "wf_graph g" and inv: "count_inv g s (c # rest) i"
  shows "count_inv g s (step_queue g c rest) (Suc i)"
proof -
  from inv obtain D where u: "unique_inv (c # rest) []" and cD: "card D = i"
    and p: "popped_inv g s D (c # rest)"
    by (auto simp: count_inv_def)
  from wf have "distinct (succs g (node c))" by (simp add: wf_graph_def)
  with u have "unique_inv (step_queue g c rest) (step_paths g c [])" by (rule unique_inv_step)
  then have u': "unique_inv (step_queue g c rest) []" by (rule unique_inv_drop_paths)
  from popped_inv_step [OF u p]
  have p': "popped_inv g s (insert (ext c) D) (step_queue g c rest)" and n: "ext c \<notin> D" by simp_all
  from p have "finite D" by (simp add: popped_inv_def)
  with n cD have "card (insert (ext c) D) = Suc i" by simp
  with u' p' show ?thesis unfolding count_inv_def by blast
qed

lemma few_walks_finish:
  assumes wf: "wf_graph g" and fin: "finite (walks_from g s)" and few: "card (walks_from g s) \<le> 1000"
  shows "fst (dfsAllPaths_run g s) = []"
proof -
  let ?q = "[\<lparr>node = s, path = []\<rparr>]"
  let ?r = "dfsAllPaths_loop g ?q [] 0"
  have "popped_inv g s {} ?q"
    by (simp add: popped_inv_def walks_from_def ext_def)
  then have "card ({} :: string list set) = 0 \<and> popped_inv g s {} ?q" by simp
  then have "\<exists>D. card D = 0 \<and> popped_inv g s D ?q" by (rule exI)
  moreover have "unique_inv ?q []" by (simp add: unique_inv_def)
  ultimately have "count_inv g s ?q 0"
    unfolding count_inv_def by (rule conjI [rotated])
  then have "count_inv g s (fst ?r) (snd (snd ?r)) \<and> (fst ?r = [] \<or> 1000 \<le> snd (snd ?r))"
    by (rule dfsAllPaths_loop_invariant_count) (rule count_inv_step [OF wf])
  then obtain D where cD: "card D = snd (snd ?r)" and p: "popped_inv g s D (fst ?r)"
    and stop: "fst ?r = [] \<or> 1000 \<le> snd (snd ?r)"
    by (auto simp: count_inv_def)
  show ?thesis
  proof (rule ccontr)
    assume "fst (dfsAllPaths_run g s) \<noteq> []"
    then have ne: "fst ?r \<noteq> []" by (simp add: dfsAllPaths_run_def)
    with stop have "1000 \<le> card D" by (simp add: cD)
    moreover from p have sub: "D \<subseteq> walks_from g s" by (simp add: popped_inv_def)
    then have "card D \<le> card (walks_from g s)" using fin by (simp add: card_mono)
    ultimately have "card D = card (walks_from g s)" using few by simp
    with sub fin have DW: "D = walks_from g s" by (simp add: card_subset_eq)
    from ne obtain c rest where cr: "fst ?r = c # rest" by (cases "fst ?r") auto
    with p have "ext c \<in> walks_from g s" and "\<forall>d \<in> D. \<not> suffix (ext c) d"
      by (simp_all add: popped_inv_def)
    with DW show False by auto
  qed
qed

text \<open>
  C5, as the code has it. The budget counts the pops, one per walk that starts at the start
  node, not the depth; and a sink with several walks to it gets one path per walk. So: on a
  graph whose successor lists are free of repetitions and in which the walks that start at
  the start node are finitely many and at most 1000 (as in a finite acyclic graph with at
  most 1000 such walks), the returned paths are exactly the walks from the start node to a
  sink (each listed from the sink back to the start, with every node on it), each returned
  once; and on a tree-shaped graph taking the first element is a bijection from the
  returned paths to the sinks reachable from the start node: one path per sink.
\<close>

theorem C5_paths_complete:
  assumes wf: "wf_graph g" and fin: "finite (walks_from g s)" and few: "card (walks_from g s) \<le> 1000"
  shows "set (dfsAllPaths g s) = {p. sink_walk g s p}
         \<and> distinct (dfsAllPaths g s)
         \<and> (tree_shaped g s \<longrightarrow> bij_betw hd (set (dfsAllPaths g s)) (reachable_sinks g s))"
  using wf few_walks_finish [OF wf fin few] by (rule dfsAllPaths_exact)

lemma children_walks:
  "walks_from children_graph ''Root'' = {[''Root''], [''Mid'', ''Root''], [''Leaf'', ''Mid'', ''Root'']}"
proof
  show "walks_from children_graph ''Root'' \<subseteq> {[''Root''], [''Mid'', ''Root''], [''Leaf'', ''Mid'', ''Root'']}"
    using children_chains by (auto simp: walks_from_def)
  show "{[''Root''], [''Mid'', ''Root''], [''Leaf'', ''Mid'', ''Root'']} \<subseteq> walks_from children_graph ''Root''"
    by (simp add: walks_from_def children_succs)
qed

text \<open>
  The hypotheses of C5 hold on the children graph: three walks start at Root, and the graph
  is tree-shaped from Root.
\<close>

theorem C5_paths_complete_witness:
  "wf_graph children_graph
   \<and> finite (walks_from children_graph ''Root'')
   \<and> card (walks_from children_graph ''Root'') = 3
   \<and> tree_shaped children_graph ''Root''
   \<and> set (dfsAllPaths children_graph ''Root'') = {p. sink_walk children_graph ''Root'' p}
   \<and> distinct (dfsAllPaths children_graph ''Root'')
   \<and> bij_betw hd (set (dfsAllPaths children_graph ''Root'')) (reachable_sinks children_graph ''Root'')"
proof -
  have wf: "wf_graph children_graph"
    unfolding children_graph_def by (rule wf_graph_graph_of)
  have fin: "finite (walks_from children_graph ''Root'')"
    and card: "card (walks_from children_graph ''Root'') = 3"
    by (simp_all add: children_walks)
  from card have few: "card (walks_from children_graph ''Root'') \<le> 1000" by simp
  from C5_paths_complete [OF wf fin few] children_tree_shaped wf fin card show ?thesis by blast
qed

text \<open>
  C5 as stated fails twice. On the diamond, an acyclic graph of depth 2, the only sink
  reachable from A is D, and two paths are returned for it. On the star, an acyclic graph
  of depth 1, the budget is used up before the last leaf is popped: the walk from S to
  that leaf is not among the 999 returned paths.
\<close>

theorem C5_counterexample:
  "dfsAllPaths diamond_graph ''A'' = [[''D'', ''B'', ''A''], [''D'', ''C'', ''A'']]
   \<and> reachable_sinks diamond_graph ''A'' = {''D''}
   \<and> sink_walk star_graph ''S'' [leaf 999, ''S'']
   \<and> [leaf 999, ''S''] \<notin> set (dfsAllPaths star_graph ''S'')
   \<and> length (dfsAllPaths star_graph ''S'') = 999"
  using star_truncated by (simp add: diamond_sinks) (simp add: dfsAllPaths_def diamond_run)

end
